theory Spec2Isabelle
  imports Complex_Main "HOL-Library.Product_Lexorder"
begin

section \<open>Common conventions\<close>

text \<open>
  The sources are Python 2 modules of the adel plant generator. Python floats are
  modelled as exact reals, Python ints as \<open>int\<close>, a dict as the association list of
  its items in iteration order (the keys of a dict are distinct), and every exception
  the code can raise as a value of \<open>py_error\<close> returned on the left of a sum. Where a
  result depends on the rounding of a double (a product that is truncated, a
  least-squares fit), the rounded operation is a parameter of the model.
\<close>

datatype py_error = AssertionError | IndexError | ValueError | LinAlgError

text \<open>\<open>int(x)\<close> on a float truncates towards zero.\<close>

definition py_int :: "real \<Rightarrow> int" where
  "py_int x = (if 0 \<le> x then \<lfloor>x\<rfloor> else \<lceil>x\<rceil>)"

section \<open>plantgen_extensions: modalities\<close>

text \<open>
  \<^verbatim>\<open>
  def modalities(nff):
      m1,m2 = int(nff), int(nff) + 1
      p = m1 + 1 - nff
      return {m1: p, m2: 1 - p}
  \<close>
\<close>

definition modalities :: "real \<Rightarrow> (int \<times> real) list" where
  "modalities nff =
     (let m1 = py_int nff; m2 = py_int nff + 1;
          p = of_int m1 + 1 - nff
      in [(m1, p), (m2, 1 - p)])"

section \<open>plantgen_extensions: cardinalities\<close>

text \<open>
  \<^verbatim>\<open>
  def cardinalities(proba, n):
      card  = {k:int(v*n) for k,v in proba.iteritems()}
      sorted_p = sorted(proba.iteritems(), key=operator.itemgetter(1), reverse=True)
      missing = int(n - sum(card.values()))
      new = [sorted_p[i][0] for i in range(missing)]
      for k in new:
          card[k] += 1
      return {k:v for k,v in card.iteritems() if v > 0}
  \<close>
  \<open>proba\<close> is the list of the items of the dict. \<open>sorted\<close> with \<open>reverse=True\<close> is a
  stable sort on the descending proportion (items of equal proportion keep their
  iteration order), which is \<open>sort_key\<close> on the negated proportion. Reading
  \<open>sorted_p[i]\<close> past the end raises \<open>IndexError\<close>; \<open>range\<close> of a negative number is
  empty.
\<close>

definition incr :: "'k \<Rightarrow> ('k \<times> int) list \<Rightarrow> ('k \<times> int) list" where
  "incr k counts = map (\<lambda>(k', c). if k' = k then (k', c + 1) else (k', c)) counts"

definition cardinalities :: "('k \<times> real) list \<Rightarrow> int \<Rightarrow> py_error + ('k \<times> int) list" where
  "cardinalities proba n =
     (let card = map (\<lambda>(k, v). (k, py_int (v * of_int n))) proba;
          sorted_p = sort_key (\<lambda>(k, v). - v) proba;
          missing = n - sum_list (map snd card)
      in if int (length sorted_p) < missing then Inl IndexError
         else let new = map fst (take (nat missing) sorted_p);
                  card' = fold incr new card
              in Inr (filter (\<lambda>(k, c). 0 < c) card'))"

text \<open>The count a result mapping gives a category (a dropped category counts 0).\<close>

definition count_of :: "('k \<times> int) list \<Rightarrow> 'k \<Rightarrow> int" where
  "count_of res k = (case map_of res k of None \<Rightarrow> 0 | Some c \<Rightarrow> c)"

text \<open>The units a category holds beyond its share rounded down.\<close>

definition extra_units :: "int \<Rightarrow> ('k \<times> int) list \<Rightarrow> 'k \<times> real \<Rightarrow> int" where
  "extra_units n res kv = count_of res (fst kv) - py_int (snd kv * of_int n)"

text \<open>
  The largest-remainder rule in the words of the specification: a category that holds
  more leftover units than another has a fractional remainder at least as large.
\<close>

definition largest_remainder_rule :: "('k \<times> real) list \<Rightarrow> int \<Rightarrow> ('k \<times> int) list \<Rightarrow> bool" where
  "largest_remainder_rule proba n res =
     (\<forall>a \<in> set proba. \<forall>b \<in> set proba.
        extra_units n res b < extra_units n res a
          \<longrightarrow> frac (snd b * of_int n) \<le> frac (snd a * of_int n))"

text \<open>
  The same function with the product \<open>v*n\<close> as the parameter \<open>product\<close>. Python computes
  the product in double precision, where it can fall just below the exact one
  (\<open>0.29 * 100\<close> is \<open>28.999999999999996\<close>, truncated to 28); what is proved for every
  \<open>product\<close> holds whatever the rounding. \<open>cardinalities\<close> is the instance with the exact
  product.
\<close>

definition cardinalities_with ::
    "(real \<Rightarrow> int \<Rightarrow> real) \<Rightarrow> ('k \<times> real) list \<Rightarrow> int \<Rightarrow> py_error + ('k \<times> int) list" where
  "cardinalities_with product proba n =
     (let card = map (\<lambda>(k, v). (k, py_int (product v n))) proba;
          sorted_p = sort_key (\<lambda>(k, v). - v) proba;
          missing = n - sum_list (map snd card)
      in if int (length sorted_p) < missing then Inl IndexError
         else let new = map fst (take (nat missing) sorted_p);
                  card' = fold incr new card
              in Inr (filter (\<lambda>(k, c). 0 < c) card'))"

text \<open>
  The list \<open>new\<close> of the code: the keys of the first \<open>missing\<close> items of \<open>sorted_p\<close>,
  where \<open>missing\<close> is \<open>n\<close> minus the sum of the truncated products.
\<close>

definition leftover_keys :: "(real \<Rightarrow> int \<Rightarrow> real) \<Rightarrow> ('k \<times> real) list \<Rightarrow> int \<Rightarrow> 'k list" where
  "leftover_keys product proba n =
     map fst (take (nat (n - sum_list (map (\<lambda>kv. py_int (product (snd kv) n)) proba)))
                (sort_key (\<lambda>(k, v). - v) proba))"

text \<open>\<open>a\<close> stands before \<open>b\<close> in the list.\<close>

definition comes_before :: "'a list \<Rightarrow> 'a \<Rightarrow> 'a \<Rightarrow> bool" where
  "comes_before xs a b = (\<exists>us vs ws. xs = us @ a # vs @ b # ws)"

section \<open>plantgen.tools: decide\_child\_cohorts\<close>

text \<open>
  \<^verbatim>\<open>
  def decide_child_cohorts(decide_child_cohort_probabilities, parent_cohort_index=-1, first_child_delay=2):
      child_cohort_numbers = []
      first_possible_cohort_number = parent_cohort_index + first_child_delay
      if first_possible_cohort_number == 1:
          child_cohort_numbers.append(first_possible_cohort_number)
          child_cohort_numbers.extend(decide_child_cohorts(decide_child_cohort_probabilities,
                                                                 first_possible_cohort_number))
      else:
          for cohort_number_str, cohort_probability in decide_child_cohort_probabilities.iteritems():
              cohort_number = int(cohort_number_str)
              if cohort_number >= first_possible_cohort_number:
                  if cohort_probability >= random.random():
                      child_cohort_numbers.append(cohort_number)
                      child_cohort_numbers.extend(decide_child_cohorts(decide_child_cohort_probabilities,
                                                                             cohort_number))
      return child_cohort_numbers
  \<close>
  The shared random source is an infinite sequence \<open>rnd\<close> of draws together with the
  number \<open>s\<close> of draws consumed so far; every call of \<open>random.random()\<close> reads
  \<open>rnd s\<close> and moves on, and the function returns the new position with its list.
  The conversion \<open>int(cohort_number_str)\<close> of a key is the parameter \<open>int_of\<close>:
  \<open>None\<close> where Python raises \<open>ValueError\<close> (a key that is no integer literal). The
  recursive calls leave \<open>first_child_delay\<close> at its default 2. The loop body is
  \<open>child_loop\<close>, over the items still to visit.
\<close>

text \<open>An upper bound of the cohort numbers among the keys, for the termination order.\<close>

fun top_cohort :: "('k \<Rightarrow> int option) \<Rightarrow> ('k \<times> real) list \<Rightarrow> int" where
  "top_cohort int_of [] = 1"
| "top_cohort int_of ((key, p) # items) =
     (case int_of key of None \<Rightarrow> top_cohort int_of items
      | Some c \<Rightarrow> max c (top_cohort int_of items))"

function decide_child_cohorts ::
    "('k \<Rightarrow> int option) \<Rightarrow> ('k \<times> real) list \<Rightarrow> int \<Rightarrow> int \<Rightarrow> (nat \<Rightarrow> real) \<Rightarrow> nat
      \<Rightarrow> py_error + (int list \<times> nat)"
  and child_loop ::
    "('k \<Rightarrow> int option) \<Rightarrow> ('k \<times> real) list \<Rightarrow> ('k \<times> real) list \<Rightarrow> int \<Rightarrow> (nat \<Rightarrow> real) \<Rightarrow> nat
      \<Rightarrow> py_error + (int list \<times> nat)"
where
  "decide_child_cohorts int_of probs parent_cohort_index first_child_delay rnd s =
     (if parent_cohort_index + first_child_delay = 1 then
        (case decide_child_cohorts int_of probs (parent_cohort_index + first_child_delay) 2 rnd s of
           Inl e \<Rightarrow> Inl e
         | Inr (children, s') \<Rightarrow> Inr ((parent_cohort_index + first_child_delay) # children, s'))
      else child_loop int_of probs probs (parent_cohort_index + first_child_delay) rnd s)"
| "child_loop int_of probs [] first_possible rnd s = Inr ([], s)"
| "child_loop int_of probs ((key, cohort_probability) # items) first_possible rnd s =
     (case int_of key of
        None \<Rightarrow> Inl ValueError
      | Some cohort_number \<Rightarrow>
          if cohort_number \<ge> first_possible then
            if cohort_probability \<ge> rnd s then
              (case decide_child_cohorts int_of probs cohort_number 2 rnd (Suc s) of
                 Inl e \<Rightarrow> Inl e
               | Inr (children, s1) \<Rightarrow>
                   (case child_loop int_of probs items first_possible rnd s1 of
                      Inl e \<Rightarrow> Inl e
                    | Inr (others, s2) \<Rightarrow> Inr (cohort_number # children @ others, s2)))
            else child_loop int_of probs items first_possible rnd (Suc s)
          else child_loop int_of probs items first_possible rnd s)"
  by pat_completeness auto

lemma top_cohort_ge_1: "1 \<le> top_cohort int_of items"
  by (induction int_of items rule: top_cohort.induct) (auto split: option.splits)

termination decide_child_cohorts
proof (relation "measures
   [\<lambda>x. case x of
      Inl (int_of, probs, parent, delay, rnd, s) \<Rightarrow>
        nat (top_cohort int_of probs + 2 - (parent + delay))
    | Inr (int_of, probs, items, fp, rnd, s) \<Rightarrow>
        nat (max (top_cohort int_of probs) (top_cohort int_of items) + 2 - fp),
    \<lambda>x. case x of
      Inl (int_of, probs, parent, delay, rnd, s) \<Rightarrow> Suc (length probs)
    | Inr (int_of, probs, items, fp, rnd, s) \<Rightarrow> length items]", goal_cases)
  case 1
  show ?case by simp
next
  case (2 int_of probs parent_cohort_index first_child_delay rnd s)
  then show ?case using top_cohort_ge_1 [of int_of probs] by simp
next
  case (3 int_of probs parent_cohort_index first_child_delay rnd s)
  then show ?case by simp
next
  case (4 int_of probs key cohort_probability items first_possible rnd s x2)
  then show ?case using top_cohort_ge_1 [of int_of probs] by (simp add: max_def)
next
  case (5 int_of probs key cohort_probability items first_possible rnd s x2 b x y)
  then show ?case by (auto simp: max_def)
next
  case (6 int_of probs key cohort_probability items first_possible rnd s x2)
  then show ?case by (auto simp: max_def)
next
  case (7 int_of probs key cohort_probability items first_possible rnd s x2)
  then show ?case by (auto simp: max_def)
qed

declare decide_child_cohorts.simps [simp del]

text \<open>
  No admissible cohort has a possible child: no key lies 2 or more above a key that is
  at least \<open>lo\<close>.
\<close>

definition no_grandchild :: "('k \<Rightarrow> int option) \<Rightarrow> ('k \<times> real) list \<Rightarrow> int \<Rightarrow> bool" where
  "no_grandchild int_of probs lo =
     (\<forall>a \<in> set probs. \<forall>b \<in> set probs. \<forall>x y.
        int_of (fst a) = Some x \<longrightarrow> int_of (fst b) = Some y \<longrightarrow> lo \<le> x \<longrightarrow> y < x + 2)"

text \<open>A sequence of draws that are all one half.\<close>

definition half_draws :: "nat \<Rightarrow> real" where
  "half_draws i = 1 / 2"

section \<open>plantgen.tools: calculate\_MS\_final\_leaves\_number\<close>

text \<open>
  \<^verbatim>\<open>
  def calculate_MS_final_leaves_number(MS_leaves_number_probabilities):
      random_value = random.random()
      probabilities_sum = 0.0
      MS_final_leaves_number = None
      for leaves_number_str, leaves_probability in MS_leaves_number_probabilities.iteritems():
          probabilities_sum += leaves_probability
          if random_value <= probabilities_sum:
              MS_final_leaves_number = float(leaves_number_str)
              break
      return MS_final_leaves_number
  \<close>
  The single draw is the argument \<open>random_value\<close>. The result \<open>Inr None\<close> is Python's
  \<open>None\<close>. The conversion \<open>float(leaves_number_str)\<close> is the parameter \<open>float_of\<close>
  (\<open>None\<close> where Python raises \<open>ValueError\<close>).
\<close>

fun leaves_loop ::
    "('k \<Rightarrow> real option) \<Rightarrow> ('k \<times> real) list \<Rightarrow> real \<Rightarrow> real \<Rightarrow> py_error + real option" where
  "leaves_loop float_of [] random_value probabilities_sum = Inr None"
| "leaves_loop float_of ((leaves_number_str, leaves_probability) # items) random_value probabilities_sum =
     (if random_value \<le> probabilities_sum + leaves_probability then
        (case float_of leaves_number_str of
           None \<Rightarrow> Inl ValueError
         | Some leaves_number \<Rightarrow> Inr (Some leaves_number))
      else leaves_loop float_of items random_value (probabilities_sum + leaves_probability))"

definition calculate_MS_final_leaves_number ::
    "('k \<Rightarrow> real option) \<Rightarrow> ('k \<times> real) list \<Rightarrow> real \<Rightarrow> py_error + real option" where
  "calculate_MS_final_leaves_number float_of MS_leaves_number_probabilities random_value =
     leaves_loop float_of MS_leaves_number_probabilities random_value 0"

section \<open>plantgen_extensions: plant\_list\<close>

text \<open>
  \<^verbatim>\<open>
  def _parent(axe):
      return '.'.join(axe.rsplit('.')[:-1])
  \<close>
  \<open>rsplit\<close> without a limit cuts the name at every dot (an empty name gives one empty
  piece), \<open>[:-1]\<close> drops the last piece and \<open>join\<close> puts the dots back.
\<close>

fun split_on :: "char \<Rightarrow> string \<Rightarrow> string list" where
  "split_on c [] = [[]]"
| "split_on c (x # xs) =
     (if x = c then [] # split_on c xs
      else (case split_on c xs of [] \<Rightarrow> [[x]] | w # ws \<Rightarrow> (x # w) # ws))"

fun join :: "string \<Rightarrow> string list \<Rightarrow> string" where
  "join sep [] = []"
| "join sep [w] = w"
| "join sep (w # ws) = w @ sep @ join sep ws"

definition parent :: "string \<Rightarrow> string" where
  "parent axe = join ''.'' (butlast (split_on CHR ''.'' axe))"

text \<open>
  \<^verbatim>\<open>
  def plant_list(axis, nplants = 2):

      def _choose_plant(axe_name, plantlist):
          candidates = filter(lambda x: (axe_name not in x) and (_parent(axe_name) in x or _parent(axe_name) == ''), plantlist)
          return random.sample(candidates,1)[0]

      def _update(plantlist, axe):
          plant = _choose_plant(axe[-1],plantlist)
          plant.update({axe[-1] : axe[:-1]})
          return plantlist

      plants = []
      for i in range(nplants):
          plants.append({})
      plants= reduce(_update, axis, plants)

      return plants
  \<close>
  A plant is a dict from axis names to axis data, a map here; the plants are separate
  objects, so the list of plants is a list of maps and the plant that
  \<open>random.sample\<close> hands back is named by its position in the list. An axis instance
  \<open>axe\<close> is the pair of \<open>axe[:-1]\<close> (its data) and \<open>axe[-1]\<close> (its name). The random
  choices are a sequence \<open>pick\<close>, one per axis: choice \<open>pick s\<close> selects the candidate
  at position \<open>pick s mod (number of candidates)\<close>. \<open>random.sample\<close> raises
  \<open>ValueError\<close> on an empty candidate list.
\<close>

definition candidates :: "string \<Rightarrow> (string \<rightharpoonup> 'a) list \<Rightarrow> nat list" where
  "candidates axe_name plantlist =
     filter (\<lambda>i. (plantlist ! i) axe_name = None
                \<and> ((plantlist ! i) (parent axe_name) \<noteq> None \<or> parent axe_name = []))
       [0..<length plantlist]"

definition choose_plant :: "nat \<Rightarrow> string \<Rightarrow> (string \<rightharpoonup> 'a) list \<Rightarrow> py_error + nat" where
  "choose_plant choice axe_name plantlist =
     (let cands = candidates axe_name plantlist
      in if cands = [] then Inl ValueError
         else Inr (cands ! (choice mod length cands)))"

definition update :: "nat \<Rightarrow> (string \<rightharpoonup> 'a) list \<Rightarrow> 'a \<times> string \<Rightarrow> py_error + (string \<rightharpoonup> 'a) list" where
  "update choice plantlist axe =
     (case choose_plant choice (snd axe) plantlist of
        Inl e \<Rightarrow> Inl e
      | Inr i \<Rightarrow> Inr (plantlist[i := (plantlist ! i)(snd axe \<mapsto> fst axe)]))"

text \<open>\<open>reduce(_update, axis, plants)\<close>, with the position \<open>s\<close> in the sequence of choices.\<close>

fun reduce_update ::
    "(nat \<Rightarrow> nat) \<Rightarrow> nat \<Rightarrow> ('a \<times> string) list \<Rightarrow> (string \<rightharpoonup> 'a) list
      \<Rightarrow> py_error + (string \<rightharpoonup> 'a) list" where
  "reduce_update pick s [] plants = Inr plants"
| "reduce_update pick s (axe # axis) plants =
     (case update (pick s) plants axe of
        Inl e \<Rightarrow> Inl e
      | Inr plants' \<Rightarrow> reduce_update pick (Suc s) axis plants')"

definition plant_list ::
    "(nat \<Rightarrow> nat) \<Rightarrow> ('a \<times> string) list \<Rightarrow> int \<Rightarrow> py_error + (string \<rightharpoonup> 'a) list" where
  "plant_list pick axis nplants = reduce_update pick 0 axis (replicate (nat nplants) Map.empty)"

text \<open>The sequence of choices that always takes the first candidate.\<close>

definition first_candidate :: "nat \<Rightarrow> nat" where
  "first_candidate s = 0"

section \<open>plantgen.tools: decide\_time\_of\_death\<close>

text \<open>
  \<open>np.polyfit(xs, ys, 1)\<close> is a routine of numpy: it solves a least-squares problem in
  double precision and returns the slope and the intercept, or raises. It is a
  parameter of the model, a function from the two abscissae and the two ordinates to
  an error or the pair of coefficients, so that what is proved for every fit holds
  whatever the rounding. \<open>np.polyval\<close> evaluates the polynomial on the coefficients it
  is given, here without rounding.
\<close>

type_synonym fit = "real \<Rightarrow> real \<Rightarrow> real \<Rightarrow> real \<Rightarrow> py_error + (real \<times> real)"

definition polyval :: "real \<times> real \<Rightarrow> real \<Rightarrow> real" where
  "polyval p x = fst p * x + snd p"

text \<open>
  Two fits for concrete runs. \<open>polyfit_returning c\<close> replays a run in which
  \<open>np.polyfit\<close> returned the coefficients \<open>c\<close>. \<open>polyfit_exact\<close> is least squares without
  rounding: the line through the two points when the abscissae differ; for equal
  abscissae \<open>x\<close> the problem is rank deficient, numpy warns and returns the solution of
  minimum norm of the scaled problem, slope \<open>m / (2 x)\<close> and intercept \<open>m / 2\<close> with \<open>m\<close> the
  mean of the two ordinates, and for \<open>x = 0\<close> it raises \<open>LinAlgError\<close>. It stands for numpy
  only where the truncated values of the fitted line are far from a whole number.
\<close>

definition polyfit_returning :: "real \<times> real \<Rightarrow> fit" where
  "polyfit_returning c x1 x2 y1 y2 = Inr c"

definition polyfit_exact :: fit where
  "polyfit_exact x1 x2 y1 y2 =
     (if x1 \<noteq> x2 then Inr ((y2 - y1) / (x2 - x1), y1 - (y2 - y1) / (x2 - x1) * x1)
      else if x1 \<noteq> 0 then Inr ((y1 + y2) / 2 / (2 * x1), (y1 + y2) / 2 / 2)
      else Inl LinAlgError)"

text \<open>
  \<^verbatim>\<open>
  def decide_time_of_death(max_axes_number, min_axes_number, TT_em_phytomer1, TT_bolting, TT_flowering):
      assert max_axes_number >= 0 and min_axes_number >=0 and TT_bolting >= 0 and TT_flowering >= 0
      assert TT_bolting <= TT_flowering
      assert min_axes_number <= max_axes_number

      polynomial_coefficient_array = np.polyfit([TT_flowering, TT_bolting], [min_axes_number, max_axes_number], 1)

      remaining_axes_number = max_axes_number
      T_em_leaf1_tuples = zip(TT_em_phytomer1[:], range(len(TT_em_phytomer1)))
      T_em_leaf1_tuples.sort()
      T_stop_axis_tuples = []
      for tt in range(int(TT_bolting), int(TT_flowering) + 1):
          simulated_axes_number = int(np.polyval(polynomial_coefficient_array, tt))
          axes_to_delete_number = remaining_axes_number - simulated_axes_number
          while axes_to_delete_number > 0:
              max_emf_1, axis_row_number = T_em_leaf1_tuples.pop()
              T_stop_axis_tuples.append((axis_row_number, tt))
              axes_to_delete_number -= 1
              remaining_axes_number -= 1
          if remaining_axes_number == 0:
              break
      T_stop_axis_tuples.sort()
      T_stop_axis_row_number_list = [T_stop_axis_tuple[0] for T_stop_axis_tuple in T_stop_axis_tuples]
      TT_stop_axis_list = [T_stop_axis_tuple[1] for T_stop_axis_tuple in T_stop_axis_tuples]
      for i in range(len(TT_em_phytomer1)):
          if i not in T_stop_axis_row_number_list:
              TT_stop_axis_list.insert(i, np.nan)
      return TT_stop_axis_list
  \<close>
  Tuples sort lexicographically. \<open>pop()\<close> takes the last tuple and raises \<open>IndexError\<close>
  on an empty list. A failed \<open>assert\<close> raises \<open>AssertionError\<close>. A death time is an
  \<open>int\<close>; the entry \<open>None\<close> of the result stands for \<open>np.nan\<close>, an axis with no death
  time.
\<close>

text \<open>The \<open>while\<close> loop.\<close>

function delete_axes ::
    "int \<Rightarrow> int \<Rightarrow> int \<Rightarrow> (real \<times> nat) list \<Rightarrow> (nat \<times> int) list
      \<Rightarrow> py_error + (int \<times> (real \<times> nat) list \<times> (nat \<times> int) list)" where
  "delete_axes tt axes_to_delete_number remaining_axes_number T_em_leaf1_tuples T_stop_axis_tuples =
     (if axes_to_delete_number > 0 then
        if T_em_leaf1_tuples = [] then Inl IndexError
        else delete_axes tt (axes_to_delete_number - 1) (remaining_axes_number - 1)
               (butlast T_em_leaf1_tuples)
               (T_stop_axis_tuples @ [(snd (last T_em_leaf1_tuples), tt)])
      else Inr (remaining_axes_number, T_em_leaf1_tuples, T_stop_axis_tuples))"
  by pat_completeness auto

termination delete_axes
  by (relation "measure (\<lambda>(tt, axes_to_delete_number, rest). nat axes_to_delete_number)") auto

declare delete_axes.simps [simp del]

text \<open>The \<open>for\<close> loop over the thermal time steps still to visit.\<close>

fun tt_loop ::
    "real \<times> real \<Rightarrow> int list \<Rightarrow> int \<Rightarrow> (real \<times> nat) list \<Rightarrow> (nat \<times> int) list
      \<Rightarrow> py_error + (nat \<times> int) list" where
  "tt_loop polynomial_coefficient_array [] remaining_axes_number T_em_leaf1_tuples T_stop_axis_tuples =
     Inr T_stop_axis_tuples"
| "tt_loop polynomial_coefficient_array (tt # tts) remaining_axes_number T_em_leaf1_tuples T_stop_axis_tuples =
     (case delete_axes tt
             (remaining_axes_number - py_int (polyval polynomial_coefficient_array (of_int tt)))
             remaining_axes_number T_em_leaf1_tuples T_stop_axis_tuples of
        Inl e \<Rightarrow> Inl e
      | Inr (remaining, tuples, stops) \<Rightarrow>
          if remaining = 0 then Inr stops
          else tt_loop polynomial_coefficient_array tts remaining tuples stops)"

text \<open>\<open>list.insert(i, x)\<close> for \<open>i \<ge> 0\<close>: past the end it appends.\<close>

definition insert_at :: "nat \<Rightarrow> 'a \<Rightarrow> 'a list \<Rightarrow> 'a list" where
  "insert_at i x xs = take i xs @ x # drop i xs"

definition fill_nan :: "nat \<Rightarrow> nat list \<Rightarrow> int option list \<Rightarrow> int option list" where
  "fill_nan n T_stop_axis_row_number_list TT_stop_axis_list =
     fold (\<lambda>i l. if i \<in> set T_stop_axis_row_number_list then l else insert_at i None l)
       [0..<n] TT_stop_axis_list"

definition decide_time_of_death ::
    "fit \<Rightarrow> int \<Rightarrow> int \<Rightarrow> real list \<Rightarrow> real \<Rightarrow> real \<Rightarrow> py_error + int option list" where
  "decide_time_of_death polyfit max_axes_number min_axes_number TT_em_phytomer1 TT_bolting TT_flowering =
     (if \<not> (max_axes_number \<ge> 0 \<and> min_axes_number \<ge> 0 \<and> TT_bolting \<ge> 0 \<and> TT_flowering \<ge> 0)
        then Inl AssertionError
      else if \<not> TT_bolting \<le> TT_flowering then Inl AssertionError
      else if \<not> min_axes_number \<le> max_axes_number then Inl AssertionError
      else
        case polyfit TT_flowering TT_bolting (of_int min_axes_number) (of_int max_axes_number) of
          Inl e \<Rightarrow> Inl e
        | Inr polynomial_coefficient_array \<Rightarrow>
            (case tt_loop polynomial_coefficient_array [py_int TT_bolting..py_int TT_flowering]
                    max_axes_number
                    (sort (zip TT_em_phytomer1 [0..<length TT_em_phytomer1])) [] of
               Inl e \<Rightarrow> Inl e
             | Inr T_stop_axis_tuples \<Rightarrow>
                 Inr (fill_nan (length TT_em_phytomer1)
                        (map fst (sort T_stop_axis_tuples))
                        (map (Some \<circ> snd) (sort T_stop_axis_tuples)))))"

section \<open>plantgen.tools: fit\_poly\<close>

text \<open>
  \<^verbatim>\<open>
  def fit_poly(x_meas_array, y_meas_array, fixed_coefs, a_starting_estimate):
      def residuals(p, y, x):
          a, = p
          err = y - peval(x, a)
          return err
      def peval(x, a):
          return np.poly1d([a] + fixed_coefs)(x)
      p, cov, infodict, mesg, ier = leastsq(residuals, [a_starting_estimate], args=(y_meas_array, x_meas_array), full_output=1)
      # RMSE_gl
      chisq = (infodict['fvec']**2).sum()
      dof = len(x_meas_array) - 1 # dof is degrees of freedom
      rmse = np.sqrt(chisq / dof)
      return p[0], rmse
  \<close>
  The arrays are lists of reals of equal length. \<open>scipy.optimize.leastsq\<close> is a parameter
  of the model: a solver takes the residual function and the starting estimate and
  either raises or returns the coefficient \<open>p[0]\<close> with the residual vector
  \<open>infodict['fvec']\<close>. A numpy float is a finite real or one of \<open>inf\<close>, \<open>-inf\<close>, \<open>nan\<close>
  (\<open>NonFinite\<close>): dividing a numpy float by 0 does not raise, it warns and gives a
  non-finite value, and so does the square root of a negative number.
\<close>

datatype np_float = Finite real | NonFinite

definition np_div :: "real \<Rightarrow> int \<Rightarrow> np_float" where
  "np_div x d = (if d = 0 then NonFinite else Finite (x / of_int d))"

definition np_sqrt :: "np_float \<Rightarrow> np_float" where
  "np_sqrt v = (case v of
       NonFinite \<Rightarrow> NonFinite
     | Finite x \<Rightarrow> if x < 0 then NonFinite else Finite (sqrt x))"

text \<open>\<open>np.poly1d(coefs)(x)\<close>, coefficients from the highest degree down.\<close>

definition poly1d :: "real list \<Rightarrow> real \<Rightarrow> real" where
  "poly1d coefs x = fold (\<lambda>c acc. acc * x + c) coefs 0"

definition peval :: "real list \<Rightarrow> real \<Rightarrow> real \<Rightarrow> real" where
  "peval fixed_coefs x a = poly1d ([a] @ fixed_coefs) x"

definition residuals :: "real list \<Rightarrow> real \<Rightarrow> real list \<Rightarrow> real list \<Rightarrow> real list" where
  "residuals fixed_coefs a y x = map2 (\<lambda>yi xi. yi - peval fixed_coefs xi a) y x"

type_synonym solver = "(real \<Rightarrow> real list) \<Rightarrow> real \<Rightarrow> py_error + (real \<times> real list)"

definition fit_poly ::
    "solver \<Rightarrow> real list \<Rightarrow> real list \<Rightarrow> real list \<Rightarrow> real \<Rightarrow> py_error + (real \<times> np_float)" where
  "fit_poly leastsq x_meas_array y_meas_array fixed_coefs a_starting_estimate =
     (case leastsq (\<lambda>a. residuals fixed_coefs a y_meas_array x_meas_array) a_starting_estimate of
        Inl e \<Rightarrow> Inl e
      | Inr (p0, fvec) \<Rightarrow>
          let chisq = sum_list (map (\<lambda>r. r ^ 2) fvec);
              dof = int (length x_meas_array) - 1;
              rmse = np_sqrt (np_div chisq dof)
          in Inr (p0, rmse))"

text \<open>
  A solver for concrete runs: the residuals are affine in the coefficient, so the sum
  of squares has the closed-form minimiser that \<open>leastsq\<close> converges to; without any
  dependence on the coefficient the starting estimate is kept.
\<close>

definition leastsq_exact :: solver where
  "leastsq_exact func x0 =
     (let r0 = func 0;
          g = map2 (\<lambda>u v. u - v) r0 (func 1);
          den = sum_list (map (\<lambda>u. u ^ 2) g);
          a = (if den = 0 then x0 else sum_list (map2 (\<lambda>u v. u * v) g r0) / den)
      in Inr (a, func a))"

section \<open>Properties of modalities\<close>

lemma py_int_nonneg: "0 \<le> x \<Longrightarrow> py_int x = \<lfloor>x\<rfloor>"
  by (simp add: py_int_def)

text \<open>
  C3. For every real \<open>x \<ge> 0\<close>, \<open>modalities x\<close> is the two-point distribution on
  \<open>floor x\<close> and \<open>floor x + 1\<close> with weights \<open>p\<close> and \<open>1 - p\<close>; both weights lie in
  \<open>[0, 1]\<close> and the expectation \<open>floor x * p + (floor x + 1) * (1 - p)\<close> is \<open>x\<close>
  (floats read as exact reals).
\<close>

theorem modalities_two_point:
  assumes "0 \<le> x"
  shows "\<exists>p. modalities x = [(\<lfloor>x\<rfloor>, p), (\<lfloor>x\<rfloor> + 1, 1 - p)]
       \<and> 0 \<le> p \<and> p \<le> 1 \<and> 0 \<le> 1 - p \<and> 1 - p \<le> 1
       \<and> of_int \<lfloor>x\<rfloor> * p + (of_int \<lfloor>x\<rfloor> + 1) * (1 - p) = x"
proof -
  define p where "p = of_int \<lfloor>x\<rfloor> + 1 - x"
  have m: "modalities x = [(\<lfloor>x\<rfloor>, p), (\<lfloor>x\<rfloor> + 1, 1 - p)]"
    using assms by (simp add: modalities_def py_int_nonneg Let_def p_def)
  have a: "0 \<le> p" "p \<le> 1" "0 \<le> 1 - p" "1 - p \<le> 1"
    unfolding p_def by linarith+
  have e: "of_int \<lfloor>x\<rfloor> * p + (of_int \<lfloor>x\<rfloor> + 1) * (1 - p) = x"
    unfolding p_def by (simp add: algebra_simps)
  from m a e show ?thesis by blast
qed

theorem modalities_two_point_witness:
  "(0 :: real) \<le> 7 / 2
   \<and> modalities (7 / 2) = [(3, 1 / 2), (4, 1 / 2)]
   \<and> 3 * (1 / 2) + 4 * (1 / 2) = (7 / 2 :: real)"
proof -
  have h: "(0 :: real) \<le> 7 / 2" by simp
  from modalities_two_point [OF h] obtain p
    where m: "modalities (7 / 2) = [(\<lfloor>7 / 2 :: real\<rfloor>, p), (\<lfloor>7 / 2 :: real\<rfloor> + 1, 1 - p)]"
      and e: "of_int \<lfloor>7 / 2 :: real\<rfloor> * p + (of_int \<lfloor>7 / 2 :: real\<rfloor> + 1) * (1 - p) = 7 / 2"
    by blast
  have f: "\<lfloor>7 / 2 :: real\<rfloor> = 3" by simp
  from e have p: "p = 1 / 2" unfolding f by simp
  from h m show ?thesis unfolding f p by simp
qed

section \<open>Properties of cardinalities\<close>


lemma py_int_nonneg_ge: "0 \<le> x \<Longrightarrow> 0 \<le> py_int x"
  by (simp add: py_int_def)

lemma floor_sum_le:
  "\<forall>x \<in> set xs. 0 \<le> f x \<Longrightarrow>
     of_int (sum_list (map (\<lambda>x. py_int (f x)) xs)) \<le> sum_list (map f xs)"
proof (induction xs)
  case Nil
  then show ?case by simp
next
  case (Cons a xs)
  have "of_int (py_int (f a)) \<le> f a" using Cons.prems by (simp add: py_int_nonneg)
  with Cons show ?case by simp
qed

lemma floor_sum_gt:
  "\<forall>x \<in> set xs. 0 \<le> f x \<Longrightarrow> xs \<noteq> [] \<Longrightarrow>
     sum_list (map f xs) < of_int (sum_list (map (\<lambda>x. py_int (f x)) xs)) + of_nat (length xs)"
proof (induction xs)
  case Nil
  then show ?case by simp
next
  case (Cons a xs)
  have a: "f a < of_int (py_int (f a)) + 1" using Cons.prems by (simp add: py_int_nonneg)
  show ?case
  proof (cases "xs = []")
    case True
    with a show ?thesis by simp
  next
    case False
    with Cons have "sum_list (map f xs) < of_int (sum_list (map (\<lambda>x. py_int (f x)) xs)) + of_nat (length xs)"
      by simp
    with a show ?thesis by simp
  qed
qed

lemma fold_incr:
  "distinct new \<Longrightarrow>
     fold incr new counts = map (\<lambda>(k, c). (k, c + (if k \<in> set new then 1 else 0))) counts"
proof (induction new arbitrary: counts)
  case Nil
  then show ?case by simp
next
  case (Cons a new)
  then have "fold incr (a # new) counts =
      map (\<lambda>(k, c). (k, c + (if k \<in> set new then 1 else 0))) (incr a counts)"
    by simp
  also have "\<dots> = map (\<lambda>(k, c). (k, c + (if k \<in> set (a # new) then 1 else 0))) counts"
    using Cons.prems by (auto simp: incr_def)
  finally show ?case .
qed

lemma length_filter_keys:
  assumes "distinct (map fst xs)" "distinct new" "set new \<subseteq> fst ` set xs"
  shows "length (filter (\<lambda>x. fst x \<in> set new) xs) = length new"
proof -
  have "length (filter (\<lambda>x. fst x \<in> set new) xs) = length (filter (\<lambda>k. k \<in> set new) (map fst xs))"
    by (simp add: filter_map comp_def)
  also have "\<dots> = card (set (filter (\<lambda>k. k \<in> set new) (map fst xs)))"
    using assms(1) distinct_card [of "filter (\<lambda>k. k \<in> set new) (map fst xs)"]
    by (simp only: distinct_filter)
  also have "set (filter (\<lambda>k. k \<in> set new) (map fst xs)) = set new"
    using assms(3) by auto
  also have "card (set new) = length new"
    using assms(2) by (simp add: distinct_card)
  finally show ?thesis .
qed

lemma sum_list_indicator:
  "sum_list (map (\<lambda>x. c x + (if P x then 1 else 0)) xs)
     = sum_list (map c xs) + int (length (filter P xs))"
  by (induction xs) auto

lemma sum_list_filter_pos:
  "\<forall>x \<in> set xs. 0 \<le> snd x \<Longrightarrow>
     sum_list (map snd (filter (\<lambda>(k, c). 0 < c) xs)) = sum_list (map snd (xs :: ('k \<times> int) list))"
  by (induction xs) (auto simp: order.order_iff_strict)

lemma missing_bounds:
  assumes nonneg: "\<forall>kv \<in> set proba. 0 \<le> snd kv"
    and total: "sum_list (map snd proba) = 1"
    and n: "0 \<le> n"
  shows "0 \<le> n - sum_list (map (\<lambda>kv. py_int (snd kv * of_int n)) proba)"
    and "n - sum_list (map (\<lambda>kv. py_int (snd kv * of_int n)) proba) < int (length proba)"
proof -
  let ?f = "\<lambda>kv :: 'a \<times> real. snd kv * of_int n"
  have f0: "\<forall>x \<in> set proba. 0 \<le> ?f x" using nonneg n by simp
  have ne: "proba \<noteq> []" using total by auto
  have s: "sum_list (map ?f proba) = of_int n"
    using total sum_list_mult_const [of snd "of_int n" proba] by simp
  from floor_sum_le [OF f0] s
  have "(of_int (sum_list (map (\<lambda>x. py_int (?f x)) proba)) :: real) \<le> of_int n" by simp
  then show "0 \<le> n - sum_list (map (\<lambda>kv. py_int (snd kv * of_int n)) proba)" by linarith
  from floor_sum_gt [OF f0 ne] s
  have "(of_int n :: real) < of_int (sum_list (map (\<lambda>x. py_int (?f x)) proba) + int (length proba))"
    by simp
  then have "n < sum_list (map (\<lambda>x. py_int (?f x)) proba) + int (length proba)"
    by (simp only: of_int_less_iff)
  then show "n - sum_list (map (\<lambda>kv. py_int (snd kv * of_int n)) proba) < int (length proba)" by linarith
qed


lemma distinct_new:
  "distinct (map fst proba) \<Longrightarrow> distinct (map fst (take m (sort_key f proba)))"
proof -
  assume d: "distinct (map fst proba)"
  have "distinct (map fst (sort_key f proba))" using d by (simp add: distinct_map)
  then have "distinct (take m (map fst (sort_key f proba)))" by (rule distinct_take)
  then show ?thesis by (simp add: take_map)
qed

lemma new_subset:
  "set (map fst (take m (sort_key f proba))) \<subseteq> fst ` set proba"
proof -
  have "set (take m (sort_key f proba)) \<subseteq> set (sort_key f proba)" by (rule set_take_subset)
  then show ?thesis by auto
qed

lemma cardinalities_eq:
  assumes nonneg: "\<forall>kv \<in> set proba. 0 \<le> snd kv"
    and total: "sum_list (map snd proba) = 1"
    and n: "0 \<le> n"
    and d: "distinct (map fst proba)"
  defines "missing \<equiv> n - sum_list (map (\<lambda>kv. py_int (snd kv * of_int n)) proba)"
  defines "new \<equiv> map fst (take (nat missing) (sort_key (\<lambda>(k, v). - v) proba))"
  shows "cardinalities proba n =
     Inr (filter (\<lambda>(k, c). 0 < c)
        (map (\<lambda>kv. (fst kv, py_int (snd kv * of_int n) + (if fst kv \<in> set new then 1 else 0))) proba))"
    and "0 \<le> missing" and "length new = nat missing"
proof -
  have mb: "0 \<le> missing" "missing < int (length proba)"
    unfolding missing_def using missing_bounds [OF nonneg total n] by simp_all
  have dn: "distinct new" unfolding new_def using d by (rule distinct_new)
  have c: "map (\<lambda>(k, v). (k, py_int (v * of_int n))) proba
         = map (\<lambda>kv. (fst kv, py_int (snd kv * of_int n))) proba"
    by (simp add: case_prod_beta)
  have s: "sum_list (map snd (map (\<lambda>kv. (fst kv, py_int (snd kv * of_int n))) proba))
         = sum_list (map (\<lambda>kv. py_int (snd kv * of_int n)) proba)"
    by (simp add: comp_def)
  have "cardinalities proba n =
      Inr (filter (\<lambda>(k, c). 0 < c)
        (fold incr new (map (\<lambda>kv. (fst kv, py_int (snd kv * of_int n))) proba)))"
    using mb unfolding cardinalities_def c Let_def s new_def missing_def by simp
  also have "fold incr new (map (\<lambda>kv. (fst kv, py_int (snd kv * of_int n))) proba)
     = map (\<lambda>kv. (fst kv, py_int (snd kv * of_int n) + (if fst kv \<in> set new then 1 else 0))) proba"
    by (simp add: fold_incr [OF dn] comp_def)
  finally show "cardinalities proba n =
     Inr (filter (\<lambda>(k, c). 0 < c)
        (map (\<lambda>kv. (fst kv, py_int (snd kv * of_int n) + (if fst kv \<in> set new then 1 else 0))) proba))" .
  show "0 \<le> missing" by (rule mb)
  show "length new = nat missing" unfolding new_def using mb by simp
qed

text \<open>
  C1. For a proportion mapping with non-negative values that sum to 1 and an integer
  \<open>n \<ge> 0\<close>, \<open>cardinalities\<close> returns (no \<open>IndexError\<close>) a mapping of non-negative
  counts whose values sum to exactly \<open>n\<close>; for \<open>n = 0\<close> the result is empty.
\<close>

theorem cardinalities_sum:
  assumes "distinct (map fst proba)"
    and "\<forall>kv \<in> set proba. 0 \<le> snd kv"
    and "sum_list (map snd proba) = 1"
    and "0 \<le> n"
  shows "\<exists>res. cardinalities proba n = Inr res
       \<and> (\<forall>kc \<in> set res. 0 \<le> snd kc)
       \<and> sum_list (map snd res) = n
       \<and> (n = 0 \<longrightarrow> res = [])"
proof -
  define missing where "missing = n - sum_list (map (\<lambda>kv. py_int (snd kv * of_int n)) proba)"
  define new where "new = map fst (take (nat missing) (sort_key (\<lambda>(k, v). - v) proba))"
  define full where "full = map (\<lambda>kv. (fst kv, py_int (snd kv * of_int n) + (if fst kv \<in> set new then 1 else 0))) proba"
  define res where "res = filter (\<lambda>(k, c). 0 < c) full"
  note ce = cardinalities_eq [OF assms(2,3,4,1), folded missing_def, folded new_def, folded full_def, folded res_def]
  have dn: "distinct new" unfolding new_def using assms(1) by (rule distinct_new)
  have sub: "set new \<subseteq> fst ` set proba" unfolding new_def by (rule new_subset)
  have fn: "\<forall>x \<in> set full. 0 \<le> snd x"
    using assms(2,4) by (auto simp: full_def intro!: py_int_nonneg_ge add_nonneg_nonneg)
  have "sum_list (map snd res) = sum_list (map snd full)"
    unfolding res_def using fn by (rule sum_list_filter_pos)
  also have "\<dots> = sum_list (map (\<lambda>kv. py_int (snd kv * of_int n) + (if fst kv \<in> set new then 1 else 0)) proba)"
    by (simp add: full_def comp_def)
  also have "\<dots> = sum_list (map (\<lambda>kv. py_int (snd kv * of_int n)) proba)
        + int (length (filter (\<lambda>x. fst x \<in> set new) proba))"
    by (rule sum_list_indicator)
  also have "length (filter (\<lambda>x. fst x \<in> set new) proba) = length new"
    using assms(1) dn sub by (rule length_filter_keys)
  also have "sum_list (map (\<lambda>kv. py_int (snd kv * of_int n)) proba) + int (length new) = n"
    using ce(2,3) by (simp add: missing_def)
  finally have total: "sum_list (map snd res) = n" .
  have pos: "\<forall>kc \<in> set res. 0 < snd kc" by (auto simp: res_def)
  have empty: "res = []" if "n = 0"
  proof (rule ccontr)
    assume "res \<noteq> []"
    then obtain x xs where r: "res = x # xs" by (cases res) auto
    have "0 \<le> sum_list (map snd xs)" using pos r by (intro sum_list_nonneg) auto
    moreover have "0 < snd x" using pos r by simp
    ultimately show False using total that r by simp
  qed
  from ce(1) pos total empty show ?thesis by (intro exI [of _ res]) (auto simp: less_imp_le)
qed


theorem cardinalities_sum_witness:
  "distinct (map fst [(''a'', 3 / 5 :: real), (''b'', 2 / 5)])
   \<and> (0 :: real) \<le> 3 / 5 \<and> (0 :: real) \<le> 2 / 5
   \<and> sum_list (map snd [(''a'', 3 / 5 :: real), (''b'', 2 / 5)]) = 1
   \<and> cardinalities [(''a'', 3 / 5), (''b'', 2 / 5)] 4 = Inr [(''a'', 3), (''b'', 1)]
   \<and> sum_list (map snd [(''a'', 3 :: int), (''b'', 1)]) = 4"
proof -
  let ?P = "[(''a'', 3 / 5 :: real), (''b'', 2 / 5)]"
  have d: "distinct (map fst ?P)" by simp
  have nn: "\<forall>kv \<in> set ?P. 0 \<le> snd kv" by simp
  have t: "sum_list (map snd ?P) = 1" by simp
  have n: "(0 :: int) \<le> 4" by simp
  from cardinalities_sum [OF d nn t n] obtain res
    where r: "cardinalities ?P 4 = Inr res" and s: "sum_list (map snd res) = 4" by blast
  have e: "cardinalities ?P 4 = Inr [(''a'', 3), (''b'', 1)]"
    by (simp add: cardinalities_def py_int_def incr_def)
  from r e have "res = [(''a'', 3), (''b'', 1)]" by simp
  with d t e s show ?thesis by simp
qed

lemma map_of_filter_map_None:
  "k \<notin> fst ` set xs \<Longrightarrow> map_of (filter P (map (\<lambda>kv. (fst kv, g kv)) xs)) k = None"
  by (induction xs) auto

lemma count_of_filter_map:
  "distinct (map fst xs) \<Longrightarrow> a \<in> set xs \<Longrightarrow>
     count_of (filter (\<lambda>(k, c). 0 < c) (map (\<lambda>kv. (fst kv, g kv)) xs)) (fst a)
       = (if 0 < g a then g a else 0)"
proof (induction xs)
  case Nil
  then show ?case by simp
next
  case (Cons x xs)
  show ?case
  proof (cases "a = x")
    case True
    have "fst x \<notin> fst ` set xs" using Cons.prems(1) by simp
    then have "map_of (filter (\<lambda>(k, c). 0 < c) (map (\<lambda>kv. (fst kv, g kv)) xs)) (fst x) = None"
      by (rule map_of_filter_map_None)
    with True show ?thesis by (simp add: count_of_def)
  next
    case False
    then have a: "a \<in> set xs" using Cons.prems(2) by simp
    then have "fst a \<in> fst ` set xs" by (rule imageI)
    moreover have "fst x \<notin> fst ` set xs" using Cons.prems(1) by simp
    ultimately have "fst a \<noteq> fst x" by metis
    with Cons.IH [OF _ a] Cons.prems(1) show ?thesis by (simp add: count_of_def)
  qed
qed

lemma sorted_take_drop:
  assumes "sorted (map f ys)" "a \<in> set (take m ys)" "b \<in> set (drop m ys)"
  shows "f a \<le> f b"
proof -
  have "sorted (map f (take m ys) @ map f (drop m ys))"
    using assms(1) by (simp flip: map_append)
  then show ?thesis using assms(2,3) by (auto simp: sorted_append)
qed

text \<open>\<open>cardinalities\<close> is \<open>cardinalities_with\<close> at the exact product.\<close>

lemma cardinalities_exact:
  "cardinalities_with (\<lambda>v n. v * of_int n) proba n = cardinalities proba n"
  by (simp add: cardinalities_with_def cardinalities_def)

lemma cardinalities_with_eq:
  assumes d: "distinct (map fst proba)"
  shows "cardinalities_with product proba n =
     (if int (length proba) < n - sum_list (map (\<lambda>kv. py_int (product (snd kv) n)) proba)
      then Inl IndexError
      else Inr (filter (\<lambda>(k, c). 0 < c)
        (map (\<lambda>kv. (fst kv, py_int (product (snd kv) n)
                 + (if fst kv \<in> set (leftover_keys product proba n) then 1 else 0))) proba)))"
proof -
  have dn: "distinct (leftover_keys product proba n)"
    unfolding leftover_keys_def using d by (rule distinct_new)
  have c: "map (\<lambda>(k, v). (k, py_int (product v n))) proba
         = map (\<lambda>kv. (fst kv, py_int (product (snd kv) n))) proba"
    by (simp add: case_prod_beta)
  have s: "sum_list (map snd (map (\<lambda>kv. (fst kv, py_int (product (snd kv) n))) proba))
         = sum_list (map (\<lambda>kv. py_int (product (snd kv) n)) proba)"
    by (simp add: comp_def)
  have f: "fold incr (leftover_keys product proba n)
             (map (\<lambda>kv. (fst kv, py_int (product (snd kv) n))) proba)
     = map (\<lambda>kv. (fst kv, py_int (product (snd kv) n)
                 + (if fst kv \<in> set (leftover_keys product proba n) then 1 else 0))) proba"
    by (simp add: fold_incr [OF dn] comp_def)
  show ?thesis
    unfolding cardinalities_with_def c Let_def s
    using f by (simp add: leftover_keys_def)
qed

lemma comes_before_filter:
  "comes_before xs a b \<Longrightarrow> P a \<Longrightarrow> P b \<Longrightarrow> comes_before (filter P xs) a b"
  unfolding comes_before_def by fastforce

lemma comes_before_Cons: "comes_before xs a b \<Longrightarrow> comes_before (x # xs) a b"
  unfolding comes_before_def by (metis append_Cons)

lemma comes_before_of_filter:
  "comes_before (filter P xs) a b \<Longrightarrow> comes_before xs a b"
proof (induction xs)
  case Nil
  then show ?case by (simp add: comes_before_def)
next
  case (Cons x xs)
  show ?case
  proof (cases "P x")
    case False
    with Cons show ?thesis by (simp add: comes_before_Cons)
  next
    case True
    from Cons.prems True obtain us vs ws
      where e: "x # filter P xs = us @ a # vs @ b # ws"
      by (auto simp: comes_before_def)
    show ?thesis
    proof (cases us)
      case Nil
      with e have xa: "x = a" and r: "filter P xs = vs @ b # ws" by simp_all
      from r have "b \<in> set (filter P xs)" by simp
      then have "b \<in> set xs" by simp
      then obtain ys zs where "xs = ys @ b # zs" by (meson split_list)
      with xa have "x # xs = [] @ a # ys @ b # zs" by simp
      then show ?thesis unfolding comes_before_def by blast
    next
      case (Cons u us')
      with e have "filter P xs = us' @ a # vs @ b # ws" by simp
      then have "comes_before (filter P xs) a b" unfolding comes_before_def by blast
      then have "comes_before xs a b" by (rule Cons.IH)
      then show ?thesis by (rule comes_before_Cons)
    qed
  qed
qed


text \<open>
  C2, as amended. Whatever the rounding of the products \<open>v*n\<close> (none of them negative),
  when \<open>cardinalities\<close> returns, every category holds its truncated product, plus one
  unit when its key is among the first \<open>missing\<close> keys of the stable descending sort by
  proportion; \<open>missing\<close> units are given out (\<open>n\<close> minus the sum of the truncated products,
  none when that is negative); and a category that is given a unit has a larger
  proportion than any category that is given none, or the same proportion and an
  earlier place in the iteration order of the dict. The units follow the proportions,
  not the fractional remainders.
\<close>

theorem cardinalities_largest_weights:
  assumes "distinct (map fst proba)"
    and "\<forall>kv \<in> set proba. 0 \<le> product (snd kv) n"
    and "cardinalities_with product proba n = Inr res"
  shows "(\<forall>kv \<in> set proba.
            count_of res (fst kv) = py_int (product (snd kv) n)
               + (if fst kv \<in> set (leftover_keys product proba n) then 1 else 0))
       \<and> int (length (leftover_keys product proba n))
            = max 0 (n - sum_list (map (\<lambda>kv. py_int (product (snd kv) n)) proba))
       \<and> (\<forall>a \<in> set proba. \<forall>b \<in> set proba.
            fst a \<in> set (leftover_keys product proba n)
              \<longrightarrow> fst b \<notin> set (leftover_keys product proba n)
              \<longrightarrow> snd b < snd a \<or> (snd b = snd a \<and> comes_before proba a b))"
proof -
  define missing where "missing = n - sum_list (map (\<lambda>kv. py_int (product (snd kv) n)) proba)"
  define sorted_p where "sorted_p = sort_key (\<lambda>(k, v). - v) proba"
  define new where "new = leftover_keys product proba n"
  define g where "g = (\<lambda>kv :: 'a \<times> real. py_int (product (snd kv) n) + (if fst kv \<in> set new then 1 else 0))"
  have new: "new = map fst (take (nat missing) sorted_p)"
    by (simp add: new_def leftover_keys_def missing_def sorted_p_def)
  from assms(3) have le: "\<not> int (length proba) < missing"
    and res: "res = filter (\<lambda>(k, c). 0 < c) (map (\<lambda>kv. (fst kv, g kv)) proba)"
    unfolding cardinalities_with_eq [OF assms(1)] missing_def g_def new_def
    by (simp_all split: if_splits)
  have g0: "0 \<le> g a" if "a \<in> set proba" for a
    using that assms(2) by (auto simp: g_def intro!: py_int_nonneg_ge add_nonneg_nonneg)
  have counts: "\<forall>kv \<in> set proba. count_of res (fst kv) = g kv"
  proof
    fix kv assume kv: "kv \<in> set proba"
    show "count_of res (fst kv) = g kv"
      unfolding res using count_of_filter_map [OF assms(1) kv, of g] g0 [OF kv] by auto
  qed
  have len: "int (length new) = max 0 missing"
    unfolding new using le by (simp add: sorted_p_def max_def)
  have order: "snd b < snd a \<or> (snd b = snd a \<and> comes_before proba a b)"
    if a: "a \<in> set proba" and b: "b \<in> set proba"
      and an: "fst a \<in> set new" and bn: "fst b \<notin> set new" for a b
  proof -
    from an obtain a' where a': "a' \<in> set (take (nat missing) sorted_p)" "fst a' = fst a"
      by (auto simp: new)
    have "a' \<in> set proba" using a'(1) set_take_subset [of "nat missing" sorted_p]
      by (auto simp: sorted_p_def)
    moreover have "inj_on fst (set proba)" using assms(1) by (simp add: distinct_map)
    ultimately have "a' = a" using a a'(2) by (auto dest: inj_onD)
    with a' have at: "a \<in> set (take (nat missing) sorted_p)" by simp
    have "b \<in> set (take (nat missing) sorted_p @ drop (nat missing) sorted_p)"
      using b by (simp add: sorted_p_def)
    moreover have "b \<notin> set (take (nat missing) sorted_p)" using bn by (auto simp: new)
    ultimately have bd: "b \<in> set (drop (nat missing) sorted_p)" by (simp only: set_append) blast
    have "sorted (map (\<lambda>(k, v). - v) sorted_p)" unfolding sorted_p_def by simp
    from sorted_take_drop [OF this at bd] have ge: "snd b \<le> snd a" by (simp add: case_prod_beta)
    from at obtain us vs where t: "take (nat missing) sorted_p = us @ a # vs" by (meson split_list)
    from bd obtain ws zs where dr: "drop (nat missing) sorted_p = ws @ b # zs" by (meson split_list)
    have "sorted_p = take (nat missing) sorted_p @ drop (nat missing) sorted_p" by simp
    then have "sorted_p = us @ a # (vs @ ws) @ b # zs" unfolding t dr by simp
    then have cs: "comes_before sorted_p a b" unfolding comes_before_def by blast
    have tie: "comes_before proba a b" if eq: "snd b = snd a"
    proof -
      let ?P = "\<lambda>y :: 'a \<times> real. (case y of (k, v) \<Rightarrow> - v) = - snd a"
      have "?P a" "?P b" using eq by (simp_all add: case_prod_beta)
      with cs have "comes_before (filter ?P sorted_p) a b" by (intro comes_before_filter)
      then have "comes_before (filter ?P proba) a b"
        unfolding sorted_p_def by (simp only: sort_key_stable)
      then show ?thesis by (rule comes_before_of_filter)
    qed
    from ge tie show ?thesis by fastforce
  qed
  from counts len order show ?thesis unfolding g_def new_def missing_def by blast
qed

theorem cardinalities_largest_weights_witness:
  "distinct (map fst [(''a'', 1 / 2 :: real), (''b'', 1 / 2)])
   \<and> (0 :: real) \<le> 1 / 2 * of_int 3
   \<and> cardinalities_with (\<lambda>v n. v * of_int n) [(''a'', 1 / 2), (''b'', 1 / 2)] 3
        = Inr [(''a'', 2), (''b'', 1)]
   \<and> leftover_keys (\<lambda>v n. v * of_int n) [(''a'', 1 / 2), (''b'', 1 / 2)] 3 = [''a'']
   \<and> count_of [(''a'', 2), (''b'', 1)] ''a'' = 1 + 1
   \<and> count_of [(''a'', 2), (''b'', 1)] ''b'' = 1 + 0
   \<and> comes_before [(''a'', 1 / 2 :: real), (''b'', 1 / 2)] (''a'', 1 / 2) (''b'', 1 / 2)"
proof -
  let ?P = "[(''a'', 1 / 2 :: real), (''b'', 1 / 2)]"
  let ?m = "\<lambda>(v :: real) (n :: int). v * of_int n"
  have d: "distinct (map fst ?P)" by simp
  have nn: "\<forall>kv \<in> set ?P. 0 \<le> ?m (snd kv) 3" by simp
  have e: "cardinalities_with ?m ?P 3 = Inr [(''a'', 2), (''b'', 1)]"
    by (simp add: cardinalities_with_def py_int_def incr_def)
  have k: "leftover_keys ?m ?P 3 = [''a'']"
    by (simp add: leftover_keys_def py_int_def)
  have "(''a'', 1 / 2 :: real) \<in> set ?P" "(''b'', 1 / 2 :: real) \<in> set ?P" by simp_all
  with cardinalities_largest_weights [OF d nn e] k
  have "comes_before ?P (''a'', 1 / 2) (''b'', 1 / 2)" by fastforce
  with d e k show ?thesis by (simp add: count_of_def)
qed

text \<open>
  C2, as stated, fails: with proportions 3/5 and 2/5 and \<open>n = 4\<close> the floors are 2 and 1
  and the leftover unit goes to the first category (remainder 0.4), not to the second
  (remainder 0.6).
\<close>

theorem cardinalities_largest_remainder_counterexample:
  "cardinalities [(''a'', 3 / 5), (''b'', 2 / 5)] 4 = Inr [(''a'', 3), (''b'', 1)]
   \<and> \<not> largest_remainder_rule [(''a'', 3 / 5), (''b'', 2 / 5)] 4 [(''a'', 3), (''b'', 1)]"
  by (simp add: cardinalities_def py_int_def incr_def largest_remainder_rule_def
      extra_units_def count_of_def frac_def)

section \<open>Properties of decide\_child\_cohorts\<close>


lemma decide_returns:
  fixes int_of :: "'k \<Rightarrow> int option"
  shows "(\<forall>a \<in> set probs. int_of (fst a) \<noteq> None)
      \<Longrightarrow> \<exists>r. decide_child_cohorts int_of probs parent_cohort_index first_child_delay rnd s = Inr r"
    and "(\<forall>a \<in> set probs. int_of (fst a) \<noteq> None) \<Longrightarrow> (\<forall>a \<in> set items. int_of (fst a) \<noteq> None)
      \<Longrightarrow> \<exists>r. child_loop int_of probs items fp rnd s = Inr r"
proof (induction int_of probs parent_cohort_index first_child_delay rnd s and int_of probs items fp rnd s
    rule: decide_child_cohorts_child_loop.induct)
  case (1 int_of probs parent_cohort_index first_child_delay rnd s)
  then show ?case by (subst decide_child_cohorts.simps) (auto split: sum.splits)
next
  case (2 int_of probs first_possible rnd s)
  then show ?case by simp
next
  case (3 int_of probs key cohort_probability items first_possible rnd s)
  from "3.prems" obtain c where c: "int_of key = Some c" by auto
  have pr: "\<forall>a \<in> set probs. int_of (fst a) \<noteq> None" "\<forall>a \<in> set items. int_of (fst a) \<noteq> None"
    using "3.prems" by simp_all
  show ?case
  proof (cases "first_possible \<le> c")
    case False
    with c "3.IH"(4) [OF c False pr] show ?thesis by simp
  next
    case True
    show ?thesis
    proof (cases "rnd s \<le> cohort_probability")
      case False
      with c True "3.IH"(3) [OF c True False pr] show ?thesis by simp
    next
      case sel: True
      from "3.IH"(1) [OF c True sel pr(1)] obtain children s1
        where d: "decide_child_cohorts int_of probs c 2 rnd (Suc s) = Inr (children, s1)"
        by fastforce
      from "3.IH"(2) [OF c True sel d refl pr] obtain r'
        where "child_loop int_of probs items first_possible rnd s1 = Inr r'" by auto
      with c True sel d show ?thesis by (cases r') simp
    qed
  qed
qed


text \<open>
  C4. For every probability mapping (every key convertible by \<open>int\<close>) and every
  sequence of draws, \<open>decide_child_cohorts\<close> called with parent index -1 and first
  child delay 2 returns, and the list it returns contains cohort 1, the main stem.
\<close>

theorem decide_child_cohorts_main_stem:
  assumes "\<forall>a \<in> set probs. int_of (fst a) \<noteq> None"
  shows "\<exists>children s'. decide_child_cohorts int_of probs (- 1) 2 rnd s = Inr (children, s')
           \<and> 1 \<in> set children"
proof -
  from decide_returns(1) [OF assms] obtain r s1
    where "decide_child_cohorts int_of probs 1 2 rnd s = Inr (r, s1)" by fastforce
  then have "decide_child_cohorts int_of probs (- 1) 2 rnd s = Inr (1 # r, s1)"
    by (subst decide_child_cohorts.simps) simp
  then show ?thesis by simp
qed

theorem decide_child_cohorts_main_stem_witness:
  "Some (3 :: int) \<noteq> None \<and> Some (5 :: int) \<noteq> None
   \<and> decide_child_cohorts Some [(3, 1), (5, 1)] (- 1) 2 half_draws 0 = Inr ([1, 3, 5, 5], 3)
   \<and> 1 \<in> set [1 :: int, 3, 5, 5]"
proof -
  have h: "\<forall>a \<in> set [(3 :: int, 1 :: real), (5, 1)]. Some (fst a) \<noteq> None" by simp
  from decide_child_cohorts_main_stem [OF h, of half_draws 0] obtain children s'
    where r: "decide_child_cohorts Some [(3, 1), (5, 1)] (- 1) 2 half_draws 0 = Inr (children, s')"
      and m: "1 \<in> set children" by blast
  have e: "decide_child_cohorts Some [(3, 1), (5, 1)] (- 1) 2 half_draws 0 = Inr ([1, 3, 5, 5], 3)"
    by (simp add: half_draws_def decide_child_cohorts.simps)
  from r e have "children = [1, 3, 5, 5]" by simp
  with e m show ?thesis by simp
qed

text \<open>
  C5, as stated, fails: with the mapping \<open>{3: 1.0, 5: 1.0}\<close> cohort 5 is drawn once as
  a child of cohort 3 and once as a child of the main stem, so the returned list
  \<open>[1, 3, 5, 5]\<close> holds it twice (for any draws: every draw is below 1.0).
\<close>

theorem decide_child_cohorts_repeats_counterexample:
  "decide_child_cohorts Some [(3, 1), (5, 1)] (- 1) 2 half_draws 0 = Inr ([1, 3, 5, 5], 3)
   \<and> \<not> distinct [1 :: int, 3, 5, 5]"
  by (simp add: half_draws_def decide_child_cohorts.simps)

lemma child_loop_none:
  "\<forall>b \<in> set items. \<forall>y. int_of (fst b) = Some y \<longrightarrow> y < fp
     \<Longrightarrow> child_loop int_of probs items fp rnd s = Inr (r, s') \<Longrightarrow> r = []"
proof (induction items)
  case Nil
  then show ?case by simp
next
  case (Cons a items)
  obtain key p where a: "a = (key, p)" by (cases a)
  from Cons.prems(2) a obtain c where c: "int_of key = Some c" by (cases "int_of key") auto
  with Cons.prems(1) a have "\<not> fp \<le> c" by auto
  with Cons a c show ?case by simp
qed

lemma decide_no_grandchild:
  assumes ng: "no_grandchild int_of probs lo"
    and a: "a \<in> set probs" "int_of (fst a) = Some x" "lo \<le> x"
    and res: "decide_child_cohorts int_of probs x 2 rnd s = Inr (r, s')"
  shows "r = (if x = - 1 then [1] else [])"
proof -
  have below: "\<forall>b \<in> set probs. \<forall>y. int_of (fst b) = Some y \<longrightarrow> y < x + 2"
    using ng a unfolding no_grandchild_def by blast
  show ?thesis
  proof (cases "x = - 1")
    case True
    have "decide_child_cohorts int_of probs 1 2 rnd s = child_loop int_of probs probs 3 rnd s"
      by (subst decide_child_cohorts.simps) simp
    with res True obtain r1 where r1: "child_loop int_of probs probs 3 rnd s = Inr (r1, s')"
      and r: "r = 1 # r1"
      by (subst (asm) decide_child_cohorts.simps) (auto split: sum.splits)
    have "\<forall>b \<in> set probs. \<forall>y. int_of (fst b) = Some y \<longrightarrow> y < 3"
      using below True by fastforce
    from child_loop_none [OF this r1] r True show ?thesis by simp
  next
    case False
    with res have "child_loop int_of probs probs (x + 2) rnd s = Inr (r, s')"
      by (subst (asm) decide_child_cohorts.simps) simp
    from child_loop_none [OF below this] False show ?thesis by simp
  qed
qed


lemma child_loop_distinct:
  assumes ng: "no_grandchild int_of probs fp"
  shows "set items \<subseteq> set probs \<Longrightarrow> distinct (map (int_of \<circ> fst) items)
     \<Longrightarrow> child_loop int_of probs items fp rnd s = Inr (r, s')
     \<Longrightarrow> distinct r
        \<and> set r \<subseteq> {x. \<exists>a \<in> set items. int_of (fst a) = Some x \<and> fp \<le> x}
             \<union> {y. y = 1 \<and> (\<exists>a \<in> set items. int_of (fst a) = Some (- 1) \<and> fp \<le> - 1)}"
proof (induction items arbitrary: r s s')
  case Nil
  then show ?case by simp
next
  case (Cons a items)
  obtain key p where a: "a = (key, p)" by (cases a)
  from Cons.prems(3) a obtain c where c: "int_of key = Some c" by (cases "int_of key") auto
  have sub: "set items \<subseteq> set probs" and ain: "a \<in> set probs"
    using Cons.prems(1) by auto
  have d: "distinct (map (int_of \<circ> fst) items)" using Cons.prems(2) by (simp add: comp_def)
  have fresh: "\<forall>b \<in> set items. int_of (fst b) \<noteq> Some c"
    using Cons.prems(2) a c by (auto simp: image_iff) 
  note IH = Cons.IH [OF sub d]
  show ?case
  proof (cases "fp \<le> c \<and> rnd s \<le> p")
    case False
    then have "child_loop int_of probs items fp rnd (Suc s) = Inr (r, s')
        \<or> child_loop int_of probs items fp rnd s = Inr (r, s')"
      using Cons.prems(3) a c by (auto split: if_splits)
    then have "distinct r
        \<and> set r \<subseteq> {x. \<exists>a \<in> set items. int_of (fst a) = Some x \<and> fp \<le> x}
             \<union> {y. y = 1 \<and> (\<exists>a \<in> set items. int_of (fst a) = Some (- 1) \<and> fp \<le> - 1)}"
      using IH by blast
    then show ?thesis by auto
  next
    case True
    then obtain children s1 others
      where dc: "decide_child_cohorts int_of probs c 2 rnd (Suc s) = Inr (children, s1)"
        and cl: "child_loop int_of probs items fp rnd s1 = Inr (others, s')"
        and r: "r = c # children @ others"
      using Cons.prems(3) a c by (auto split: sum.splits)
    have ch: "children = (if c = - 1 then [1] else [])"
      using decide_no_grandchild [OF ng ain _ _ dc] a c True by simp
    from IH [OF cl] have od: "distinct others"
      and os: "set others \<subseteq> {x. \<exists>a \<in> set items. int_of (fst a) = Some x \<and> fp \<le> x}
             \<union> {y. y = 1 \<and> (\<exists>a \<in> set items. int_of (fst a) = Some (- 1) \<and> fp \<le> - 1)}"
      by simp_all
    have no1: False if "b \<in> set probs" "int_of (fst b) = Some 1"
        "b' \<in> set probs" "int_of (fst b') = Some (- 1)" "fp \<le> - 1" for b b'
    proof -
      have "(1 :: int) < - 1 + 2"
        using ng that unfolding no_grandchild_def by blast
      then show False by simp
    qed
    have c_others: "c \<notin> set others"
    proof
      assume "c \<in> set others"
      with os fresh have "c = 1" and "\<exists>a \<in> set items. int_of (fst a) = Some (- 1) \<and> fp \<le> - 1"
        by auto
      then show False using no1 [OF ain] a c sub by auto
    qed
    have ch_others: "set children \<inter> set others = {}"
    proof (cases "c = - 1")
      case False
      with ch show ?thesis by simp
    next
      case m: True
      have "1 \<notin> set others"
      proof
        assume "1 \<in> set others"
        with os fresh m have "\<exists>b \<in> set items. int_of (fst b) = Some 1" by auto
        then show False using no1 [OF _ _ ain] a c m sub True by auto
      qed
      with ch m show ?thesis by simp
    qed
    have "distinct r" using r ch od c_others ch_others by auto
    moreover have "set r \<subseteq> {x. \<exists>a \<in> set (a # items). int_of (fst a) = Some x \<and> fp \<le> x}
             \<union> {y. y = 1 \<and> (\<exists>a \<in> set (a # items). int_of (fst a) = Some (- 1) \<and> fp \<le> - 1)}"
      using r ch os a c True by auto
    ultimately show ?thesis by simp
  qed
qed

text \<open>
  C5, as amended. When the keys denote distinct cohort numbers and no key lies 2 or
  more above a key that can be drawn (a key at or above \<open>parent_cohort_index + first_child_delay\<close>, or at or
  above 3 when \<open>parent_cohort_index + first_child_delay = 1\<close>), no drawn cohort has a child of its own and the
  returned list holds each cohort index at most once, whatever the draws.
\<close>

theorem decide_child_cohorts_distinct:
  assumes conv: "\<forall>a \<in> set probs. int_of (fst a) \<noteq> None"
    and d: "distinct (map (int_of \<circ> fst) probs)"
    and ng: "no_grandchild int_of probs (if parent_cohort_index + first_child_delay = 1 then 3 else parent_cohort_index + first_child_delay)"
  shows "\<exists>r s'. decide_child_cohorts int_of probs parent_cohort_index first_child_delay rnd s = Inr (r, s') \<and> distinct r"
proof -
  from decide_returns(1) [OF conv] obtain r s'
    where res: "decide_child_cohorts int_of probs parent_cohort_index first_child_delay rnd s = Inr (r, s')" by fastforce
  have "distinct r"
  proof (cases "parent_cohort_index + first_child_delay = 1")
    case True
    have "decide_child_cohorts int_of probs 1 2 rnd s = child_loop int_of probs probs 3 rnd s"
      by (subst decide_child_cohorts.simps) simp
    with res True obtain r1 where r1: "child_loop int_of probs probs 3 rnd s = Inr (r1, s')"
      and r: "r = 1 # r1"
      by (subst (asm) decide_child_cohorts.simps) (auto split: sum.splits)
    from ng True have "no_grandchild int_of probs 3" by simp
    from child_loop_distinct [OF this subset_refl d r1] r show ?thesis by auto
  next
    case False
    with res have cl: "child_loop int_of probs probs (parent_cohort_index + first_child_delay) rnd s = Inr (r, s')"
      by (subst (asm) decide_child_cohorts.simps) simp
    from ng False have "no_grandchild int_of probs (parent_cohort_index + first_child_delay)" by simp
    from child_loop_distinct [OF this subset_refl d cl] show ?thesis by simp
  qed
  with res show ?thesis by blast
qed

theorem decide_child_cohorts_distinct_witness:
  "Some (3 :: int) \<noteq> None \<and> Some (4 :: int) \<noteq> None
   \<and> distinct (map (Some \<circ> fst) [(3 :: int, 1 :: real), (4, 1)])
   \<and> no_grandchild Some [(3 :: int, 1), (4, 1)] 3
   \<and> decide_child_cohorts Some [(3, 1), (4, 1)] (- 1) 2 half_draws 0 = Inr ([1, 3, 4], 2)
   \<and> distinct [1 :: int, 3, 4]"
proof -
  let ?P = "[(3 :: int, 1 :: real), (4, 1)]"
  have h: "\<forall>a \<in> set ?P. Some (fst a) \<noteq> None" by simp
  have d: "distinct (map (Some \<circ> fst) ?P)" by simp
  have g3: "no_grandchild Some ?P 3" by (simp add: no_grandchild_def)
  then have g: "no_grandchild Some ?P (if - 1 + 2 = (1 :: int) then 3 else - 1 + 2)" by simp
  from decide_child_cohorts_distinct [OF h d g, of half_draws 0] obtain r s'
    where r: "decide_child_cohorts Some ?P (- 1) 2 half_draws 0 = Inr (r, s')"
      and dr: "distinct r" by blast
  have e: "decide_child_cohorts Some ?P (- 1) 2 half_draws 0 = Inr ([1, 3, 4], 2)"
    by (simp add: half_draws_def decide_child_cohorts.simps)
  from r e have "r = [1, 3, 4]" by simp
  with d g3 e dr show ?thesis by simp
qed

section \<open>Properties of calculate\_MS\_final\_leaves\_number\<close>


lemma leaves_loop_None:
  "\<forall>a \<in> set items. 0 \<le> snd a \<Longrightarrow> probabilities_sum + sum_list (map snd items) < random_value
     \<Longrightarrow> leaves_loop float_of items random_value probabilities_sum = Inr None"
proof (induction items arbitrary: probabilities_sum)
  case Nil
  then show ?case by simp
next
  case (Cons a items)
  obtain k p where a: "a = (k, p)" by (cases a)
  have "0 \<le> sum_list (map snd items)" using Cons.prems(1) by (intro sum_list_nonneg) auto
  with Cons.prems(2) a have "\<not> random_value \<le> probabilities_sum + p" by simp
  moreover have "leaves_loop float_of items random_value (probabilities_sum + p) = Inr None"
    using Cons.prems a by (intro Cons.IH) (simp_all add: add.assoc)
  ultimately show ?case using a by simp
qed

text \<open>
  C10. With non-negative probabilities, \<open>calculate_MS_final_leaves_number\<close> returns
  \<open>None\<close>, without an error, for every draw above the total probability mass. When
  the mass is below 1, this happens on a whole interval \<open>(lo, hi)\<close> of draws inside
  \<open>[0, 1]\<close> with \<open>lo < hi\<close>, that is with positive probability.
\<close>

theorem leaves_number_None_above_total:
  assumes "\<forall>a \<in> set probs. 0 \<le> snd a"
  shows "(\<forall>r. sum_list (map snd probs) < r
            \<longrightarrow> calculate_MS_final_leaves_number float_of probs r = Inr None)
       \<and> (sum_list (map snd probs) < 1 \<longrightarrow>
            (\<exists>lo hi. 0 \<le> lo \<and> lo < hi \<and> hi \<le> 1
               \<and> (\<forall>r. lo < r \<and> r < hi
                     \<longrightarrow> calculate_MS_final_leaves_number float_of probs r = Inr None)))"
proof -
  have none: "calculate_MS_final_leaves_number float_of probs r = Inr None"
    if "sum_list (map snd probs) < r" for r
    unfolding calculate_MS_final_leaves_number_def
    using assms that by (intro leaves_loop_None) simp_all
  have total: "0 \<le> sum_list (map snd probs)" using assms by (intro sum_list_nonneg) auto
  have "\<exists>lo hi. 0 \<le> lo \<and> lo < hi \<and> hi \<le> 1
               \<and> (\<forall>r. lo < r \<and> r < hi
                     \<longrightarrow> calculate_MS_final_leaves_number float_of probs r = Inr None)"
    if "sum_list (map snd probs) < 1"
    using that total none by (intro exI [of _ "sum_list (map snd probs)"] exI [of _ 1]) simp
  with none show ?thesis by blast
qed

theorem leaves_number_None_above_total_witness:
  "(0 :: real) \<le> 1 / 2 \<and> (0 :: real) \<le> 1 / 4
   \<and> sum_list (map snd [(11 :: real, 1 / 2 :: real), (12, 1 / 4)]) < 4 / 5
   \<and> calculate_MS_final_leaves_number Some [(11 :: real, 1 / 2), (12, 1 / 4)] (4 / 5) = Inr None"
proof -
  let ?P = "[(11 :: real, 1 / 2 :: real), (12, 1 / 4)]"
  have nn: "\<forall>a \<in> set ?P. 0 \<le> snd a" by simp
  have lt: "sum_list (map snd ?P) < 4 / 5" by simp
  from leaves_number_None_above_total [OF nn, of Some] lt
  have "calculate_MS_final_leaves_number Some ?P (4 / 5) = Inr None" by blast
  with lt show ?thesis by simp
qed

section \<open>Properties of plant\_list\<close>


lemma candidates_sound:
  "i \<in> set (candidates axe_name plantlist) \<Longrightarrow>
     i < length plantlist
     \<and> (parent axe_name = [] \<or> parent axe_name \<in> dom (plantlist ! i))"
  by (auto simp: candidates_def)

lemma choose_plant_sound:
  assumes "choose_plant choice axe_name plantlist = Inr i"
  shows "i < length plantlist \<and> (parent axe_name = [] \<or> parent axe_name \<in> dom (plantlist ! i))"
proof -
  let ?c = "candidates axe_name plantlist"
  from assms have ne: "?c \<noteq> []" and i: "i = ?c ! (choice mod length ?c)"
    by (auto simp: choose_plant_def Let_def split: if_splits)
  from ne have "choice mod length ?c < length ?c" by simp
  with i have "i \<in> set ?c" by simp
  then show ?thesis by (rule candidates_sound)
qed

lemma update_keeps:
  assumes inv: "\<forall>p \<in> set plantlist. \<forall>a \<in> dom p. parent a = [] \<or> parent a \<in> dom p"
    and upd: "update choice plantlist axe = Inr plantlist'"
  shows "\<forall>p \<in> set plantlist'. \<forall>a \<in> dom p. parent a = [] \<or> parent a \<in> dom p"
proof -
  from upd obtain i where ch: "choose_plant choice (snd axe) plantlist = Inr i"
    and pl: "plantlist' = plantlist[i := (plantlist ! i)(snd axe \<mapsto> fst axe)]"
    by (auto simp: update_def split: sum.splits)
  from choose_plant_sound [OF ch] have i: "i < length plantlist"
    and par: "parent (snd axe) = [] \<or> parent (snd axe) \<in> dom (plantlist ! i)" by simp_all
  let ?p = "(plantlist ! i)(snd axe \<mapsto> fst axe)"
  have old: "\<forall>a \<in> dom (plantlist ! i). parent a = [] \<or> parent a \<in> dom (plantlist ! i)"
    using inv i by simp
  have new: "\<forall>a \<in> dom ?p. parent a = [] \<or> parent a \<in> dom ?p"
    using old par by auto
  show ?thesis
  proof
    fix p assume "p \<in> set plantlist'"
    then have "p \<in> insert ?p (set plantlist)"
      unfolding pl using set_update_subset_insert by fast
    then consider "p = ?p" | "p \<in> set plantlist" by blast
    then show "\<forall>a \<in> dom p. parent a = [] \<or> parent a \<in> dom p"
    proof cases
      case 1
      from new show ?thesis unfolding 1 .
    next
      case 2
      with inv show ?thesis by (rule bspec)
    qed
  qed
qed

lemma reduce_update_keeps:
  "\<forall>p \<in> set plants. \<forall>a \<in> dom p. parent a = [] \<or> parent a \<in> dom p
     \<Longrightarrow> reduce_update pick s axis plants = Inr plants'
     \<Longrightarrow> \<forall>p \<in> set plants'. \<forall>a \<in> dom p. parent a = [] \<or> parent a \<in> dom p"
proof (induction axis arbitrary: s plants)
  case Nil
  then show ?case by simp
next
  case (Cons axe axis)
  from Cons.prems(2) obtain mid where u: "update (pick s) plants axe = Inr mid"
    and r: "reduce_update pick (Suc s) axis mid = Inr plants'"
    by (auto split: sum.splits)
  from update_keeps [OF Cons.prems(1) u] have "\<forall>p \<in> set mid. \<forall>a \<in> dom p. parent a = [] \<or> parent a \<in> dom p" .
  from Cons.IH [OF this r] show ?case .
qed

text \<open>
  C8. Whenever \<open>plant_list\<close> returns normally, whatever the random choices, every
  plant of the returned list satisfies: the parent identifier of each axis it holds is
  the empty string or is itself an axis identifier of that same plant.
\<close>

theorem plant_list_parents_present:
  assumes "plant_list pick axis nplants = Inr plants"
  shows "\<forall>p \<in> set plants. \<forall>a \<in> dom p. parent a = '''' \<or> parent a \<in> dom p"
proof -
  have "\<forall>p \<in> set (replicate (nat nplants) (Map.empty :: string \<rightharpoonup> 'a)). \<forall>a \<in> dom p. parent a = [] \<or> parent a \<in> dom p"
    by simp
  from reduce_update_keeps [OF this assms [unfolded plant_list_def]] show ?thesis .
qed

theorem plant_list_parents_present_witness:
  "plant_list first_candidate [((1 :: int, 11 :: int), ''MS''), ((3, 9), ''T1''), ((5, 8), ''T1.0'')] 2
     = Inr [[''MS'' \<mapsto> (1, 11), ''T1'' \<mapsto> (3, 9), ''T1.0'' \<mapsto> (5, 8)], Map.empty]
   \<and> parent ''MS'' = '''' \<and> parent ''T1'' = '''' \<and> parent ''T1.0'' = ''T1''
   \<and> ''T1'' \<in> dom [''MS'' \<mapsto> (1 :: int, 11 :: int), ''T1'' \<mapsto> (3, 9), ''T1.0'' \<mapsto> (5, 8)]"
proof -
  have run: "plant_list first_candidate [((1 :: int, 11 :: int), ''MS''), ((3, 9), ''T1''), ((5, 8), ''T1.0'')] 2
     = Inr [[''MS'' \<mapsto> (1, 11), ''T1'' \<mapsto> (3, 9), ''T1.0'' \<mapsto> (5, 8)], Map.empty]"
    by (simp add: plant_list_def update_def choose_plant_def candidates_def parent_def
        first_candidate_def numeral_2_eq_2 upt_rec)
  from plant_list_parents_present [OF run] run show ?thesis
    by (simp add: parent_def)
qed

section \<open>Properties of decide\_time\_of\_death\<close>


lemma delete_axes_result:
  "delete_axes tt d rem tuples stops = Inr (rem', tuples', stops') \<Longrightarrow>
     rem' = rem - max d 0
     \<and> int (length tuples') = int (length tuples) - max d 0
     \<and> (\<forall>x \<in> set stops'. x \<in> set stops \<or> (0 < d \<and> snd x = tt))"
proof (induction tt d rem tuples stops rule: delete_axes.induct)
  case (1 tt d rem tuples stops)
  show ?case
  proof (cases "0 < d")
    case False
    with "1.prems" show ?thesis by (subst (asm) delete_axes.simps) simp
  next
    case True
    have unfold: "delete_axes tt d rem tuples stops =
        (if tuples = [] then Inl IndexError
         else delete_axes tt (d - 1) (rem - 1) (butlast tuples)
                (stops @ [(snd (last tuples), tt)]))"
      using True by (subst delete_axes.simps) simp
    from "1.prems" have ne: "tuples \<noteq> []"
      unfolding unfold by (cases "tuples = []") simp_all
    with "1.prems" have rec: "delete_axes tt (d - 1) (rem - 1) (butlast tuples)
                  (stops @ [(snd (last tuples), tt)]) = Inr (rem', tuples', stops')"
      unfolding unfold by simp
    note IH = "1.IH" [OF True ne rec]
    have a: "rem' = rem - max d 0" using IH True by (simp add: max_def)
    have lb: "int (length (butlast tuples)) = int (length tuples) - 1"
      using ne by (cases tuples rule: rev_cases) simp_all
    from IH have "int (length tuples') = int (length (butlast tuples)) - max (d - 1) 0"
      by (rule conjunct2 [THEN conjunct1])
    then have b: "int (length tuples') = int (length tuples) - max d 0"
      unfolding lb using True by (simp add: max_def)
    have c: "\<forall>x \<in> set stops'. x \<in> set stops \<or> (0 < d \<and> snd x = tt)"
      using IH True by auto
    from a b c show ?thesis by blast
  qed
qed

lemma delete_axes_returns:
  "max d 0 \<le> int (length tuples) \<Longrightarrow> \<exists>r. delete_axes tt d rem tuples stops = Inr r"
proof (induction tt d rem tuples stops rule: delete_axes.induct)
  case (1 tt d rem tuples stops)
  show ?case
  proof (cases "0 < d")
    case False
    then show ?thesis by (subst delete_axes.simps) simp
  next
    case True
    with "1.prems" have ne: "tuples \<noteq> []" by auto
    have lb: "int (length (butlast tuples)) = int (length tuples) - 1"
      using ne by (cases tuples rule: rev_cases) simp_all
    have "max (d - 1) 0 \<le> int (length (butlast tuples))"
      unfolding lb using "1.prems" True by (auto simp: max_def)
    from "1.IH" [OF True ne this] True ne show ?thesis
      by (subst delete_axes.simps) simp
  qed
qed


lemma tt_loop_stops:
  "tt_loop c tts rem tuples stops = Inr out \<Longrightarrow>
     \<forall>x \<in> set out. x \<in> set stops
        \<or> (snd x \<in> set tts \<and> py_int (polyval c (of_int (snd x))) < rem)"
proof (induction tts arbitrary: rem tuples stops)
  case Nil
  then show ?case by simp
next
  case (Cons tt tts)
  let ?d = "rem - py_int (polyval c (of_int tt))"
  from Cons.prems obtain rem' tuples' stops'
    where del: "delete_axes tt ?d rem tuples stops = Inr (rem', tuples', stops')"
      and rest: "(rem' = 0 \<and> out = stops') \<or> tt_loop c tts rem' tuples' stops' = Inr out"
    by (auto split: sum.splits if_splits)
  from delete_axes_result [OF del] have le: "rem' \<le> rem"
    and st: "\<forall>x \<in> set stops'. x \<in> set stops \<or> (0 < ?d \<and> snd x = tt)"
    by (simp_all add: max_def)
  have first: "x \<in> set stops \<or> (snd x \<in> set (tt # tts) \<and> py_int (polyval c (of_int (snd x))) < rem)"
    if "x \<in> set stops'" for x
    using st that by auto
  from rest show ?case
  proof
    assume "rem' = 0 \<and> out = stops'"
    with first show ?thesis by blast
  next
    assume "tt_loop c tts rem' tuples' stops' = Inr out"
    from Cons.IH [OF this]
    have "\<forall>x \<in> set out. x \<in> set stops'
        \<or> (snd x \<in> set tts \<and> py_int (polyval c (of_int (snd x))) < rem')" .
    with first le show ?thesis by fastforce
  qed
qed

lemma tt_loop_returns:
  "\<forall>tt \<in> set tts. 0 \<le> py_int (polyval c (of_int tt)) \<Longrightarrow> 0 \<le> rem
     \<Longrightarrow> rem \<le> int (length tuples)
     \<Longrightarrow> \<exists>out. tt_loop c tts rem tuples stops = Inr out"
proof (induction tts arbitrary: rem tuples stops)
  case Nil
  then show ?case by simp
next
  case (Cons tt tts)
  let ?d = "rem - py_int (polyval c (of_int tt))"
  have sim: "0 \<le> py_int (polyval c (of_int tt))" using Cons.prems(1) by simp
  then have "max ?d 0 \<le> int (length tuples)" using Cons.prems(2,3) by (simp add: max_def)
  from delete_axes_returns [OF this] obtain rem' tuples' stops'
    where del: "delete_axes tt ?d rem tuples stops = Inr (rem', tuples', stops')"
    by (metis prod_cases3)
  from delete_axes_result [OF del] have r: "rem' = rem - max ?d 0"
    and l: "int (length tuples') = int (length tuples) - max ?d 0" by simp_all
  have "0 \<le> rem'" using r sim Cons.prems(2) by (simp add: max_def)
  moreover have "rem' \<le> int (length tuples')" using r l Cons.prems(3) by simp
  ultimately have "\<exists>out. tt_loop c tts rem' tuples' stops' = Inr out"
    using Cons.prems(1) by (intro Cons.IH) simp_all
  with del show ?case by auto
qed

lemma set_insert_at: "set (insert_at i x xs) = insert x (set xs)"
proof -
  have "set (take i xs) \<union> set (drop i xs) = set xs"
    by (metis append_take_drop_id set_append)
  then show ?thesis by (simp add: insert_at_def)
qed

lemma fold_insert_Some:
  "Some t \<in> set (fold (\<lambda>i l. if i \<in> set rows then l else insert_at i None l) js l)
     \<Longrightarrow> Some t \<in> set l"
proof (induction js arbitrary: l)
  case Nil
  then show ?case by simp
next
  case (Cons j js)
  show ?case
  proof (cases "j \<in> set rows")
    case True
    with Cons show ?thesis by simp
  next
    case False
    with Cons.prems
    have "Some t \<in> set (fold (\<lambda>i l. if i \<in> set rows then l else insert_at i None l) js
             (insert_at j None l))"
      by simp
    then have "Some t \<in> set (insert_at j None l)" by (rule Cons.IH)
    then show ?thesis by (simp add: set_insert_at)
  qed
qed

lemma fill_nan_Some:
  "Some t \<in> set (fill_nan n rows l) \<Longrightarrow> Some t \<in> set l"
  unfolding fill_nan_def by (rule fold_insert_Some)


lemma py_int_le: "0 \<le> x \<Longrightarrow> of_int (py_int x) \<le> x"
  by (simp add: py_int_def)

lemma py_int_gt: "x - 1 < of_int (py_int x)"
  unfolding py_int_def by (cases "0 \<le> x") (simp_all, linarith+)

lemma decide_time_of_death_returns:
  assumes "0 \<le> min_axes_number" "min_axes_number \<le> max_axes_number"
    and "0 \<le> TT_bolting" "TT_bolting \<le> TT_flowering"
    and fit: "polyfit TT_flowering TT_bolting (of_int min_axes_number) (of_int max_axes_number) = Inr c"
    and sim: "\<forall>tt \<in> set [py_int TT_bolting..py_int TT_flowering]. 0 \<le> py_int (polyval c (of_int tt))"
    and len: "max_axes_number \<le> int (length TT_em_phytomer1)"
  shows "\<exists>out. decide_time_of_death polyfit max_axes_number min_axes_number TT_em_phytomer1
                  TT_bolting TT_flowering = Inr out"
proof -
  have mx: "0 \<le> max_axes_number" using assms(1,2) by simp
  have "max_axes_number \<le> int (length (sort (zip TT_em_phytomer1 [0..<length TT_em_phytomer1])))"
    using len by simp
  from tt_loop_returns [OF sim mx this] obtain stops
    where "tt_loop c [py_int TT_bolting..py_int TT_flowering] max_axes_number
             (sort (zip TT_em_phytomer1 [0..<length TT_em_phytomer1])) [] = Inr stops"
    by blast
  with assms(1-4) mx fit show ?thesis by (simp add: decide_time_of_death_def)
qed

text \<open>
  C6, as amended. Whatever \<open>np.polyfit\<close> returns, every death time that
  \<open>decide_time_of_death\<close> assigns is one of the integer steps of the loop:
  \<open>int(TT_bolting) \<le> tt \<le> int(TT_flowering)\<close>. So it is at most \<open>TT_flowering\<close> and
  less than 1 below \<open>TT_bolting\<close>, and it is at least \<open>TT_bolting\<close> when \<open>TT_bolting\<close> is a
  whole number. (A result \<open>Inr out\<close> means that the three asserts passed.)
\<close>

theorem death_times_window:
  assumes "decide_time_of_death polyfit max_axes_number min_axes_number TT_em_phytomer1
             TT_bolting TT_flowering = Inr out"
    and "Some tt \<in> set out"
  shows "py_int TT_bolting \<le> tt \<and> tt \<le> py_int TT_flowering
       \<and> TT_bolting - 1 < of_int tt \<and> of_int tt \<le> TT_flowering
       \<and> (TT_bolting = of_int (py_int TT_bolting) \<longrightarrow> TT_bolting \<le> of_int tt)"
proof -
  from assms(1) have Tf: "0 \<le> TT_flowering"
    by (auto simp: decide_time_of_death_def split: if_splits)
  from assms(1) obtain c stops
    where loop: "tt_loop c [py_int TT_bolting..py_int TT_flowering] max_axes_number
             (sort (zip TT_em_phytomer1 [0..<length TT_em_phytomer1])) [] = Inr stops"
      and out: "out = fill_nan (length TT_em_phytomer1) (map fst (sort stops))
                  (map (Some \<circ> snd) (sort stops))"
    by (auto simp: decide_time_of_death_def split: if_splits sum.splits)
  from assms(2) have "Some tt \<in> set (map (Some \<circ> snd) (sort stops))"
    unfolding out by (rule fill_nan_Some)
  then obtain row where "(row, tt) \<in> set stops" by auto
  with tt_loop_stops [OF loop] have "tt \<in> set [py_int TT_bolting..py_int TT_flowering]" by auto
  then have b: "py_int TT_bolting \<le> tt" "tt \<le> py_int TT_flowering" by simp_all
  have lo: "(of_int (py_int TT_bolting) :: real) \<le> of_int tt" using b(1) by simp
  have "(of_int tt :: real) \<le> of_int (py_int TT_flowering)" using b(2) by simp
  then have hi: "of_int tt \<le> TT_flowering" using py_int_le [OF Tf] by linarith
  have near: "TT_bolting - 1 < of_int tt" using py_int_gt [of TT_bolting] lo by linarith
  have whole: "TT_bolting \<le> of_int tt" if "TT_bolting = of_int (py_int TT_bolting)"
    using that lo by simp
  from b near hi whole show ?thesis by blast
qed

theorem death_times_window_witness:
  "decide_time_of_death polyfit_exact 10 3 [0, 0, 0, 0, 0, 0, 0, 0, 0, 0] (201 / 2) (221 / 2)
     = Inr [None, None, None, Some 110, Some 108, Some 107, Some 105, Some 104, Some 102, Some 101]
   \<and> py_int (201 / 2) \<le> 101 \<and> 101 \<le> py_int (221 / 2)
   \<and> (201 / 2 :: real) - 1 < of_int 101 \<and> (of_int 101 :: real) \<le> 221 / 2"
proof -
  have e: "decide_time_of_death polyfit_exact 10 3 [0, 0, 0, 0, 0, 0, 0, 0, 0, 0] (201 / 2) (221 / 2)
     = Inr [None, None, None, Some 110, Some 108, Some 107, Some 105, Some 104, Some 102, Some 101]"
    by (simp add: decide_time_of_death_def polyfit_exact_def polyval_def py_int_def
        delete_axes.simps fill_nan_def insert_at_def upto.simps upt_rec)
  have m: "Some 101 \<in> set [None, None, None, Some 110, Some 108, Some 107, Some 105, Some 104,
      Some 102, Some (101 :: int)]" by simp
  from death_times_window [OF e m] e show ?thesis by blast
qed

text \<open>
  C6, as stated, fails: the steps start at the truncated \<open>TT_bolting\<close>. With 10 axes, a
  minimum of 2 and \<open>TT_bolting = TT_flowering = 100.5\<close> the only step is \<open>tt = 100\<close>, the
  rank-deficient fit evaluates to about 5.99 there, and five axes die at 100, before
  \<open>TT_bolting\<close>.
\<close>

theorem death_time_before_bolting_counterexample:
  "decide_time_of_death polyfit_exact 10 2 [0, 0, 0, 0, 0, 0, 0, 0, 0, 0] (201 / 2) (201 / 2)
     = Inr [None, None, None, None, None, Some 100, Some 100, Some 100, Some 100, Some 100]
   \<and> (of_int 100 :: real) < 201 / 2"
  by (simp add: decide_time_of_death_def polyfit_exact_def polyval_def py_int_def
      delete_axes.simps fill_nan_def insert_at_def upto.simps upt_rec)

text \<open>
  With least squares free of rounding the same run gives 8 death times and 2 unresolved
  entries, the 10 - 2 of the linear decay.
\<close>

lemma death_times_ten_axes_exact:
  "decide_time_of_death polyfit_exact 10 2 [0, 0, 0, 0, 0, 0, 0, 0, 0, 0] 100 110
     = Inr [None, None, Some 109, Some 108, Some 107, Some 106, Some 104, Some 103, Some 102, Some 101]"
  by (simp add: decide_time_of_death_def polyfit_exact_def polyval_def py_int_def
      delete_axes.simps fill_nan_def insert_at_def upto.simps upt_rec)

text \<open>
  C7 does not hold of the code. At the input of the claim \<open>np.polyfit([110.0, 100.0], [2,
  10], 1)\<close> returns the doubles \<open>-0.8000000000000043\<close> and \<open>90.00000000000041\<close>: the fitted
  line lies just below 10, 6 and 2 at \<open>tt = 100\<close>, 105 and 110, where \<open>int()\<close>
  truncates it to 9, 5 and 1. The run gives 9 death times and a single unresolved
  entry: an axis dies at bolting, and one axis is left where
  \<open>min_axes_number = 2\<close> is documented as the minimum number of existing axes.
\<close>

theorem death_times_ten_axes_doubles:
  "decide_time_of_death (polyfit_returning (- 0.8000000000000043, 90.00000000000041))
       10 2 [0, 0, 0, 0, 0, 0, 0, 0, 0, 0] 100 110
     = Inr [None, Some 110, Some 109, Some 108, Some 107, Some 105, Some 104, Some 103, Some 102,
         Some 100]
   \<and> length (filter (\<lambda>t. t \<noteq> None) [None, Some 110, Some 109, Some 108, Some 107, Some 105,
        Some 104, Some 103, Some 102, Some (100 :: int)]) = 9
   \<and> length (filter (\<lambda>t. t = None) [None, Some 110, Some 109, Some 108, Some 107, Some 105,
        Some 104, Some 103, Some 102, Some (100 :: int)]) = 1"
  by (simp add: decide_time_of_death_def polyfit_returning_def polyval_def py_int_def
      delete_axes.simps fill_nan_def insert_at_def upto.simps upt_rec)

section \<open>Properties of fit\_poly\<close>


text \<open>
  C9, as amended. \<open>fit_poly\<close> has no guard on the number of samples: it signals an error
  exactly when the least-squares routine does, and on exactly one \<open>(x, y)\<close> pair, when
  the routine returns, it returns the fitted coefficient with a non-finite RMSE (the
  sum of squares divided by \<open>dof = 0\<close>).
\<close>

theorem fit_poly_no_guard:
  "(\<forall>e. fit_poly leastsq x_meas_array y_meas_array fixed_coefs a0 = Inl e
       \<longleftrightarrow> leastsq (\<lambda>a. residuals fixed_coefs a y_meas_array x_meas_array) a0 = Inl e)
   \<and> (length x_meas_array = 1 \<longrightarrow>
        (\<forall>p fvec. leastsq (\<lambda>a. residuals fixed_coefs a y_meas_array x_meas_array) a0 = Inr (p, fvec)
           \<longrightarrow> fit_poly leastsq x_meas_array y_meas_array fixed_coefs a0 = Inr (p, NonFinite)))"
  by (auto simp: fit_poly_def Let_def np_div_def np_sqrt_def split: sum.splits)

theorem fit_poly_no_guard_witness:
  "length [1 :: real] = 1
   \<and> leastsq_exact (\<lambda>a. residuals [5] a [8] [1]) 1 = Inr (3, [0])
   \<and> fit_poly leastsq_exact [1] [8] [5] 1 = Inr (3, NonFinite)"
proof -
  have l: "length [1 :: real] = 1" by simp
  have s: "leastsq_exact (\<lambda>a. residuals [5] a [8] [1]) 1 = Inr (3, [0])"
    by (simp add: leastsq_exact_def residuals_def peval_def poly1d_def)
  from fit_poly_no_guard [of leastsq_exact "[1]" "[8]" "[5]" 1] l s
  have "fit_poly leastsq_exact [1] [8] [5] 1 = Inr (3, NonFinite)" by blast
  with l s show ?thesis by simp
qed

text \<open>
  C9, as stated, fails: on the single sample \<open>(1, 8)\<close> with fixed coefficient 5 the fit is
  \<open>a = 3\<close> with residual 0, and \<open>fit_poly\<close> returns \<open>(3, nan)\<close> instead of signalling an error.
\<close>

theorem fit_poly_one_sample_counterexample:
  "length [1 :: real] < 2 \<and> fit_poly leastsq_exact [1] [8] [5] 1 = Inr (3, NonFinite)"
  by (simp add: fit_poly_def leastsq_exact_def residuals_def peval_def poly1d_def
      np_div_def np_sqrt_def)

end
